theory Spec2Isabelle
  imports Main "HOL-Library.Sublist"
begin

section \<open>Configuration values\<close>

text \<open>
  A configuration tree is a JSON value. The loader works on the result of
  \<^verbatim>\<open>JSON.parse(JSON.stringify(config))\<close>, so every value it sees is plain JSON: on the
  datatype below that round trip is the identity. Numbers are only ever tested for
  truthiness, so an integer stands for them. An object is the list of its own properties
  in enumeration order; \<^verbatim>\<open>obj[k] = v\<close> keeps the position of an existing key and appends a
  new one, \<^verbatim>\<open>delete obj[k]\<close> removes it.
\<close>

datatype json =
  JNull
| JBool bool
| JNum int
| JStr string
| JArr "json list"
| JObj "(string \<times> json) list"

fun isObject :: "json \<Rightarrow> bool" where
  "isObject (JObj kvs) = True"
| "isObject j = False"

fun Array_isArray :: "json \<Rightarrow> bool" where
  "Array_isArray (JArr xs) = True"
| "Array_isArray j = False"

fun truthy :: "json \<Rightarrow> bool" where
  "truthy JNull = False"
| "truthy (JBool b) = b"
| "truthy (JNum n) = (n \<noteq> 0)"
| "truthy (JStr s) = (s \<noteq> [])"
| "truthy (JArr xs) = True"
| "truthy (JObj kvs) = True"

definition getProp :: "(string \<times> 'v) list \<Rightarrow> string \<Rightarrow> 'v option" where
  "getProp kvs k = map_of kvs k"

fun setProp :: "string \<Rightarrow> 'v \<Rightarrow> (string \<times> 'v) list \<Rightarrow> (string \<times> 'v) list" where
  "setProp k v [] = [(k, v)]"
| "setProp k v ((k', v') # kvs) =
     (if k' = k then (k, v) # kvs else (k', v') # setProp k v kvs)"

definition deleteProp :: "string \<Rightarrow> (string \<times> 'v) list \<Rightarrow> (string \<times> 'v) list" where
  "deleteProp k kvs = filter (\<lambda>kv. fst kv \<noteq> k) kvs"

text \<open>\<^verbatim>\<open>x || d\<close> on a property that may be absent.\<close>

definition orDefault :: "json option \<Rightarrow> json \<Rightarrow> json" where
  "orDefault v d = (case v of None \<Rightarrow> d | Some x \<Rightarrow> if truthy x then x else d)"

definition truthyProp :: "json option \<Rightarrow> bool" where
  "truthyProp v = (case v of None \<Rightarrow> False | Some x \<Rightarrow> truthy x)"

text \<open>
  The only faults the loader's own code can raise: spreading a value that is not iterable
  into an array literal. \<open>OutOfFuel\<close> is not a fault of the program: it is the model's
  value for a walk that has not returned within the recursion depth it was given.
\<close>

datatype fault = TypeError | OutOfFuel

definition digitChar :: "nat \<Rightarrow> char" where
  "digitChar n = ''0123456789'' ! (n mod 10)"

fun decimal :: "nat \<Rightarrow> string" where
  "decimal n = (if n < 10 then [digitChar n] else decimal (n div 10) @ [digitChar (n mod 10)])"

definition indexed :: "'v list \<Rightarrow> (string \<times> 'v) list" where
  "indexed xs = zip (map decimal [0..<length xs]) xs"

text \<open>\<^verbatim>\<open>{ ...base }\<close>: the own enumerable properties of \<open>base\<close>.\<close>

fun objectSpread :: "json \<Rightarrow> (string \<times> json) list" where
  "objectSpread (JObj kvs) = kvs"
| "objectSpread (JArr xs) = indexed xs"
| "objectSpread (JStr s) = indexed (map (\<lambda>c. JStr [c]) s)"
| "objectSpread j = []"

text \<open>\<^verbatim>\<open>[ ...base ]\<close>: the elements \<open>base\<close> iterates over; a \<^verbatim>\<open>TypeError\<close> when it is not iterable.\<close>

fun arraySpread :: "json \<Rightarrow> fault + json list" where
  "arraySpread (JArr xs) = Inr xs"
| "arraySpread (JStr s) = Inr (map (\<lambda>c. JStr [c]) s)"
| "arraySpread j = Inl TypeError"

section \<open>Merge functions\<close>

text \<open>A loaded fragment \<^verbatim>\<open>{ data, source }\<close> is the pair \<open>(data, source)\<close>.\<close>

definition withSource :: "string \<Rightarrow> (string \<times> json) list \<Rightarrow> json" where
  "withSource source kvs = JObj (setProp ''__source__'' (JStr source) kvs)"

fun mergeEntries :: "string \<Rightarrow> (string \<times> json) list \<Rightarrow> (string \<times> json) list \<Rightarrow> (string \<times> json) list" where
  "mergeEntries source [] result = result"
| "mergeEntries source ((key, val) # rest) result =
     mergeEntries source rest
       (setProp key (case val of JObj kvs \<Rightarrow> withSource source kvs | _ \<Rightarrow> val) result)"

fun mergeObjectLoop :: "(json \<times> string) list \<Rightarrow> (string \<times> json) list \<Rightarrow> (string \<times> json) list" where
  "mergeObjectLoop [] result = result"
| "mergeObjectLoop ((item, source) # rest) result =
     mergeObjectLoop rest
       (case item of JObj entries \<Rightarrow> mergeEntries source entries result | _ \<Rightarrow> result)"

definition mergeObjectValues :: "json \<Rightarrow> (json \<times> string) list \<Rightarrow> (string \<times> json) list" where
  "mergeObjectValues base loaded = mergeObjectLoop loaded (objectSpread base)"

definition stampElement :: "string \<Rightarrow> json \<Rightarrow> json" where
  "stampElement source element =
     (case element of JObj kvs \<Rightarrow> withSource source kvs | _ \<Rightarrow> element)"

fun mergeArrayLoop :: "(json \<times> string) list \<Rightarrow> json list \<Rightarrow> json list" where
  "mergeArrayLoop [] result = result"
| "mergeArrayLoop ((item, source) # rest) result =
     mergeArrayLoop rest
       (case item of
          JArr elements \<Rightarrow> result @ map (stampElement source) elements
        | JObj kvs \<Rightarrow> result @ [withSource source kvs]
        | _ \<Rightarrow> result @ [item])"

definition mergeArrayValues :: "json \<Rightarrow> (json \<times> string) list \<Rightarrow> fault + json list" where
  "mergeArrayValues base loaded =
     (case arraySpread base of
        Inl e \<Rightarrow> Inl e
      | Inr result \<Rightarrow> Inr (mergeArrayLoop loaded result))"

section \<open>The loader's state\<close>

datatype GlobTypeKey =
  Structures_from_glob
| Values_from_glob
| Snippets_from_glob
| Snippets_imports_from_glob
| Snippets_templates_from_glob
| Snippets_definitions_from_glob
| Inputs_from_glob
| Editables_from_glob
| Collections_config_from_glob
| Schemas_from_glob

fun keyName :: "GlobTypeKey \<Rightarrow> string" where
  "keyName Structures_from_glob = ''_structures_from_glob''"
| "keyName Values_from_glob = ''values_from_glob''"
| "keyName Snippets_from_glob = ''_snippets_from_glob''"
| "keyName Snippets_imports_from_glob = ''_snippets_imports_from_glob''"
| "keyName Snippets_templates_from_glob = ''_snippets_templates_from_glob''"
| "keyName Snippets_definitions_from_glob = ''_snippets_definitions_from_glob''"
| "keyName Inputs_from_glob = ''_inputs_from_glob''"
| "keyName Editables_from_glob = ''_editables_from_glob''"
| "keyName Collections_config_from_glob = ''collections_config_from_glob''"
| "keyName Schemas_from_glob = ''schemas_from_glob''"

definition allGlobKeys :: "GlobTypeKey list" where
  "allGlobKeys =
     [Structures_from_glob, Values_from_glob, Snippets_from_glob, Snippets_imports_from_glob,
      Snippets_templates_from_glob, Snippets_definitions_from_glob, Inputs_from_glob,
      Editables_from_glob, Collections_config_from_glob, Schemas_from_glob]"

datatype cycleWarning = Cycle (cyclePath: string) (cycleChain: "string list")

datatype multipleGlobKeysWarning =
  MultipleGlobKeys (conflictPath: string) (type1: GlobTypeKey) (type2: GlobTypeKey)

datatype arrayValueWarning = ArrayValue (arrayPath: string)

record GlobLoaderWarnings =
  cycles :: "cycleWarning list"
  multipleGlobKeys :: "multipleGlobKeysWarning list"
  arrayValues :: "arrayValueWarning list"

text \<open>
  The collaborators' invocations, in order. The source keeps no such list; it is recorded
  here so that what the loader hands to its collaborators can be stated.
\<close>

datatype collaboratorCall = FindFiles "json list" | LoadFile string

text \<open>
  A \<^verbatim>\<open>Set<string>\<close> is the list of its members in insertion order; \<open>pathsToGlobKey\<close> is an
  object keyed by path.
\<close>

record loader =
  warnings :: GlobLoaderWarnings
  pathsToGlobKey :: "(string \<times> GlobTypeKey) list"
  globKeyToPaths :: "GlobTypeKey \<Rightarrow> string list"
  globPatterns :: "string list"
  calls :: "collaboratorCall list"

definition setAdd :: "'a \<Rightarrow> 'a list \<Rightarrow> 'a list" where
  "setAdd x xs = (if x \<in> set xs then xs else xs @ [x])"

definition emptyWarnings :: GlobLoaderWarnings where
  "emptyWarnings = \<lparr>cycles = [], multipleGlobKeys = [], arrayValues = []\<rparr>"

definition newLoader :: loader where
  "newLoader =
     \<lparr>warnings = emptyWarnings, pathsToGlobKey = [], globKeyToPaths = (\<lambda>k. []),
      globPatterns = [], calls = []\<rparr>"

section \<open>Collaborators\<close>

text \<open>
  What \<^verbatim>\<open>await loadConfigFile(path)\<close> followed by the JSON round trip of its value comes to:
  the promise rejects or the value does not survive the round trip (both end in the same
  \<^verbatim>\<open>catch\<close>), the value is \<^verbatim>\<open>undefined\<close> or \<^verbatim>\<open>null\<close>, or the round trip yields a JSON value.
\<close>

datatype loadResult = LoadThrows | LoadNullish | Loaded json

record collaborators =
  findFilesMatchingGlobs :: "json list \<Rightarrow> string list"
  loadConfigFile :: "string \<Rightarrow> loadResult"
  localeCompare :: "string \<Rightarrow> string \<Rightarrow> int"

section \<open>Fragment loader\<close>

text \<open>
  \<^verbatim>\<open>matchingFiles.sort((a, b) => a.localeCompare(b))\<close>. The collation is the platform's and
  is a parameter of the model. \<^verbatim>\<open>Array.prototype.sort\<close> is stable; insertion places an
  element before the first one it does not compare greater than.
\<close>

fun insertSorted :: "(string \<Rightarrow> string \<Rightarrow> int) \<Rightarrow> string \<Rightarrow> string list \<Rightarrow> string list" where
  "insertSorted lc x [] = [x]"
| "insertSorted lc x (y # ys) = (if lc x y \<le> 0 then x # y # ys else y # insertSorted lc x ys)"

definition sortPaths :: "(string \<Rightarrow> string \<Rightarrow> int) \<Rightarrow> string list \<Rightarrow> string list" where
  "sortPaths lc xs = foldr (insertSorted lc) xs []"

definition pushCycle :: "string \<Rightarrow> string list \<Rightarrow> loader \<Rightarrow> loader" where
  "pushCycle filePath chain st =
     st\<lparr>warnings := (warnings st)\<lparr>cycles := cycles (warnings st) @ [Cycle filePath chain]\<rparr>\<rparr>"

definition pushMultipleGlobKeys :: "string \<Rightarrow> GlobTypeKey \<Rightarrow> GlobTypeKey \<Rightarrow> loader \<Rightarrow> loader" where
  "pushMultipleGlobKeys filePath existingGlobKey globKey st =
     st\<lparr>warnings := (warnings st)\<lparr>multipleGlobKeys :=
       multipleGlobKeys (warnings st) @ [MultipleGlobKeys filePath existingGlobKey globKey]\<rparr>\<rparr>"

definition pushArrayValue :: "string \<Rightarrow> loader \<Rightarrow> loader" where
  "pushArrayValue filePath st =
     st\<lparr>warnings := (warnings st)\<lparr>arrayValues := arrayValues (warnings st) @ [ArrayValue filePath]\<rparr>\<rparr>"

definition claimPath :: "string \<Rightarrow> GlobTypeKey \<Rightarrow> loader \<Rightarrow> loader" where
  "claimPath filePath globKey st =
     st\<lparr>pathsToGlobKey := setProp filePath globKey (pathsToGlobKey st),
        globKeyToPaths := (globKeyToPaths st)(globKey := setAdd filePath (globKeyToPaths st globKey))\<rparr>"

definition recordCall :: "collaboratorCall \<Rightarrow> loader \<Rightarrow> loader" where
  "recordCall c st = st\<lparr>calls := calls st @ [c]\<rparr>"

text \<open>The optional visitation set: \<open>None\<close> is \<^verbatim>\<open>undefined\<close>.\<close>

definition visitedHas :: "string list option \<Rightarrow> string \<Rightarrow> bool" where
  "visitedHas visited filePath = (case visited of None \<Rightarrow> False | Some vs \<Rightarrow> filePath \<in> set vs)"

definition visitedAdd :: "string list option \<Rightarrow> string \<Rightarrow> string list option" where
  "visitedAdd visited filePath = (case visited of None \<Rightarrow> None | Some vs \<Rightarrow> Some (setAdd filePath vs))"

definition chainOf :: "string list option \<Rightarrow> string list" where
  "chainOf visited = (case visited of None \<Rightarrow> [] | Some vs \<Rightarrow> vs)"

text \<open>\<^verbatim>\<open>existingGlobKey && existingGlobKey !== globKey\<close>: the other key that owns the path.\<close>

definition otherOwner :: "loader \<Rightarrow> string \<Rightarrow> GlobTypeKey \<Rightarrow> GlobTypeKey option" where
  "otherOwner st filePath globKey =
     (case getProp (pathsToGlobKey st) filePath of
        None \<Rightarrow> None
      | Some existingGlobKey \<Rightarrow> if existingGlobKey \<noteq> globKey then Some existingGlobKey else None)"

text \<open>One iteration of the loop over the matching files.\<close>

definition loadStep ::
  "collaborators \<Rightarrow> string \<Rightarrow> GlobTypeKey \<Rightarrow> string list option \<Rightarrow> loader
     \<Rightarrow> (json \<times> string) option \<times> string list option \<times> loader" where
  "loadStep env filePath globKey visited st =
     (if visitedHas visited filePath then
        (None, visited, pushCycle filePath (chainOf visited) st)
      else
        (case otherOwner st filePath globKey of
           Some existingGlobKey \<Rightarrow>
             (None, visited, pushMultipleGlobKeys filePath existingGlobKey globKey st)
         | None \<Rightarrow>
             (let st1 = recordCall (LoadFile filePath) (claimPath filePath globKey st);
                  visited1 = visitedAdd visited filePath
              in case loadConfigFile env filePath of
                   LoadThrows \<Rightarrow> (None, visited1, st1)
                 | LoadNullish \<Rightarrow> (None, visited1, st1)
                 | Loaded clonedData \<Rightarrow>
                     (if Array_isArray clonedData then (None, visited1, pushArrayValue filePath st1)
                      else (Some (clonedData, filePath), visited1, st1)))))"

fun loadLoop ::
  "collaborators \<Rightarrow> string list \<Rightarrow> GlobTypeKey \<Rightarrow> string list option \<Rightarrow> loader
     \<Rightarrow> (json \<times> string) list \<times> string list option \<times> loader" where
  "loadLoop env [] globKey visited st = ([], visited, st)"
| "loadLoop env (filePath # rest) globKey visited st =
     (case loadStep env filePath globKey visited st of
        (item, visited1, st1) \<Rightarrow>
          (case loadLoop env rest globKey visited1 st1 of
             (loadedData, visited2, st2) \<Rightarrow>
               ((case item of None \<Rightarrow> loadedData | Some x \<Rightarrow> x # loadedData), visited2, st2)))"

definition loadFilesFromGlobs ::
  "collaborators \<Rightarrow> json list \<Rightarrow> GlobTypeKey \<Rightarrow> string list option \<Rightarrow> loader
     \<Rightarrow> (json \<times> string) list \<times> string list option \<times> loader" where
  "loadFilesFromGlobs env globs globKey visited st =
     loadLoop env (sortPaths (localeCompare env) (findFilesMatchingGlobs env globs)) globKey visited
       (recordCall (FindFiles globs) st)"

section \<open>Resolving one reference key\<close>

definition startsWithBang :: "string \<Rightarrow> bool" where
  "startsWithBang s = (case s of [] \<Rightarrow> False | c # cs \<Rightarrow> c = CHR ''!'')"

definition addPattern :: "string list \<Rightarrow> json \<Rightarrow> string list" where
  "addPattern pats pattern =
     (case pattern of
        JStr s \<Rightarrow> if startsWithBang s then pats else setAdd s pats
      | _ \<Rightarrow> pats)"

definition importFromGlobKey ::
  "collaborators \<Rightarrow> (string \<times> json) list \<Rightarrow> GlobTypeKey \<Rightarrow> string \<Rightarrow> bool \<Rightarrow> string list option
     \<Rightarrow> loader \<Rightarrow> fault + ((string \<times> json) list \<times> string list option \<times> loader)" where
  "importFromGlobKey env config globKey targetKey isArray visited st =
     (case getProp config (keyName globKey) of
        Some (JArr globs) \<Rightarrow>
          (case loadFilesFromGlobs env globs globKey visited
                  (st\<lparr>globPatterns := foldl addPattern (globPatterns st) globs\<rparr>) of
             (loadedDataWithSources, visited1, st1) \<Rightarrow>
               (if isArray then
                  (case mergeArrayValues (orDefault (getProp config targetKey) (JArr []))
                          loadedDataWithSources of
                     Inl e \<Rightarrow> Inl e
                   | Inr merged \<Rightarrow>
                       Inr (deleteProp (keyName globKey) (setProp targetKey (JArr merged) config),
                            visited1, st1))
                else
                  Inr (deleteProp (keyName globKey)
                         (setProp targetKey
                            (JObj (mergeObjectValues (orDefault (getProp config targetKey) (JObj []))
                                     loadedDataWithSources))
                            config),
                       visited1, st1)))
      | _ \<Rightarrow> Inr (config, visited, st))"


section \<open>Tree walker\<close>

text \<open>
  The walker mutates the tree in place; here every function returns the structure it was
  given, rebuilt, together with the visitation set and the loader's state. The tree holds
  no shared objects (it comes from \<^verbatim>\<open>JSON.parse\<close>, and every fragment is a fresh clone), so
  a rebuilt structure is the mutated one.

  The callbacks of a \<^verbatim>\<open>Promise.all\<close> run here one after the other, in array order, each to
  its end. With one callback that is what the source does; with several the source starts
  each callback before the first resumes from its first \<^verbatim>\<open>await\<close>, and the order in which
  they go on depends on when the collaborator's promises settle.

  The recursion through structure values and their inputs follows the loaded content, which
  the collaborators decide; the depth it may reach is bounded by \<open>fuel\<close>.
\<close>

text \<open>Sequencing of steps that may raise a fault.\<close>

definition andThen :: "fault + 'a \<Rightarrow> ('a \<Rightarrow> fault + 'b) \<Rightarrow> fault + 'b" where
  "andThen m f = (case m of Inl e \<Rightarrow> Inl e | Inr x \<Rightarrow> f x)"

lemma andThen_cong [fundef_cong]:
  "m = m' \<Longrightarrow> (\<And>x. m' = Inr x \<Longrightarrow> f x = f' x) \<Longrightarrow> andThen m f = andThen m' f'"
  by (auto simp: andThen_def split: sum.splits)

definition inputStructures ::
  "json \<Rightarrow> ((string \<times> json) list \<times> (string \<times> json) list \<times> (string \<times> json) list) option" where
  "inputStructures inputValue =
     (case inputValue of
        JObj iv \<Rightarrow>
          (case getProp iv ''options'' of
             Some (JObj opts) \<Rightarrow>
               (case getProp opts ''structures'' of
                  Some (JObj structures) \<Rightarrow> Some (iv, opts, structures)
                | _ \<Rightarrow> None)
           | _ \<Rightarrow> None)
      | _ \<Rightarrow> None)"

definition importIfTruthy ::
  "collaborators \<Rightarrow> (string \<times> json) list \<Rightarrow> GlobTypeKey \<Rightarrow> string \<Rightarrow> bool \<Rightarrow> string list option
     \<Rightarrow> loader \<Rightarrow> fault + ((string \<times> json) list \<times> string list option \<times> loader)" where
  "importIfTruthy env config globKey targetKey isArray visited st =
     (if truthyProp (getProp config (keyName globKey)) then
        importFromGlobKey env config globKey targetKey isArray visited st
      else Inr (config, visited, st))"

definition arrayProp :: "(string \<times> json) list \<Rightarrow> string \<Rightarrow> json list option" where
  "arrayProp kvs k = (case getProp kvs k of Some (JArr xs) \<Rightarrow> Some xs | _ \<Rightarrow> None)"

definition putStructures ::
  "(string \<times> json) list \<Rightarrow> (string \<times> json) list \<Rightarrow> (string \<times> json) list \<Rightarrow> json" where
  "putStructures iv opts structures =
     JObj (setProp ''options'' (JObj (setProp ''structures'' (JObj structures) opts)) iv)"

definition restoreVisited :: "string list option \<Rightarrow> string list option \<Rightarrow> string list option" where
  "restoreVisited visited visitedLocal = (case visited of None \<Rightarrow> None | Some vs \<Rightarrow> visitedLocal)"

definition truthyInputs :: "(string \<times> json) list \<Rightarrow> json option" where
  "truthyInputs sv = (case getProp sv ''_inputs'' of None \<Rightarrow> None | Some inputs \<Rightarrow> if truthy inputs then Some inputs else None)"

function (sequential) processInputsKey ::
  "collaborators \<Rightarrow> nat \<Rightarrow> json \<Rightarrow> string list option \<Rightarrow> loader
     \<Rightarrow> fault + (json \<times> string list option \<times> loader)"
and processInputEntries ::
  "collaborators \<Rightarrow> nat \<Rightarrow> (string \<times> json) list \<Rightarrow> string list option \<Rightarrow> loader
     \<Rightarrow> fault + ((string \<times> json) list \<times> string list option \<times> loader)"
and processInputValue ::
  "collaborators \<Rightarrow> nat \<Rightarrow> json \<Rightarrow> string list option \<Rightarrow> loader
     \<Rightarrow> fault + (json \<times> string list option \<times> loader)"
and processStructureValues ::
  "collaborators \<Rightarrow> nat \<Rightarrow> json list \<Rightarrow> string list option \<Rightarrow> loader
     \<Rightarrow> fault + (json list \<times> string list option \<times> loader)"
and processStructureValue ::
  "collaborators \<Rightarrow> nat \<Rightarrow> json \<Rightarrow> string list option \<Rightarrow> loader
     \<Rightarrow> fault + (json \<times> string list option \<times> loader)"
where
  "processInputsKey env fuel inputs visited st =
     (case inputs of
        JObj entries \<Rightarrow>
          andThen (processInputEntries env fuel entries visited st)
            (\<lambda>(entries1, visited1, st1). Inr (JObj entries1, visited1, st1))
      | _ \<Rightarrow> Inr (inputs, visited, st))"
| "processInputEntries env fuel [] visited st = Inr ([], visited, st)"
| "processInputEntries env fuel ((k, inputValue) # rest) visited st =
     andThen (processInputValue env fuel inputValue visited st)
       (\<lambda>(inputValue1, visited1, st1).
          andThen (processInputEntries env fuel rest visited1 st1)
            (\<lambda>(rest1, visited2, st2). Inr ((k, inputValue1) # rest1, visited2, st2)))"
| "processInputValue env fuel inputValue visited st =
     (case inputStructures inputValue of
        None \<Rightarrow> Inr (inputValue, visited, st)
      | Some (iv, opts, structures) \<Rightarrow>
          andThen (importIfTruthy env structures Values_from_glob ''values'' True
                     (Some (chainOf visited)) st)
            (\<lambda>(structures1, visitedLocal1, st1).
               (case arrayProp structures1 ''values'' of
                  None \<Rightarrow>
                    Inr (putStructures iv opts structures1,
                         restoreVisited visited visitedLocal1, st1)
                | Some vals \<Rightarrow>
                    andThen (processStructureValues env fuel vals visitedLocal1 st1)
                      (\<lambda>(vals1, visitedLocal2, st2).
                         Inr (putStructures iv opts (setProp ''values'' (JArr vals1) structures1),
                              restoreVisited visited visitedLocal2, st2)))))"
| "processStructureValues env fuel [] visited st = Inr ([], visited, st)"
| "processStructureValues env fuel (structureValue # rest) visited st =
     andThen (processStructureValue env fuel structureValue visited st)
       (\<lambda>(structureValue1, visited1, st1).
          andThen (processStructureValues env fuel rest visited1 st1)
            (\<lambda>(rest1, visited2, st2). Inr (structureValue1 # rest1, visited2, st2)))"
| "processStructureValue env 0 structureValue visited st = Inl OutOfFuel"
| "processStructureValue env (Suc fuel) structureValue visited st =
     (case structureValue of
        JObj sv \<Rightarrow>
          andThen (importIfTruthy env sv Inputs_from_glob ''_inputs'' False visited st)
            (\<lambda>(sv1, visited1, st1).
               (case truthyInputs sv1 of
                  None \<Rightarrow> Inr (JObj sv1, visited1, st1)
                | Some inputs \<Rightarrow>
                    andThen (processInputsKey env fuel inputs visited1 st1)
                      (\<lambda>(inputs1, visited2, st2).
                         Inr (JObj (setProp ''_inputs'' inputs1 sv1), visited2, st2))))
      | _ \<Rightarrow> Inr (structureValue, visited, st))"
  by pat_completeness auto

termination
  apply (relation "inv_image (less_than <*lex*> less_than <*lex*> less_than)
    (\<lambda>x. case x of
        Inl (Inl (env, fuel, inputs, visited, st)) \<Rightarrow> (fuel, 4::nat, 0::nat)
      | Inl (Inr (env, fuel, entries, visited, st)) \<Rightarrow> (fuel, 3, length entries)
      | Inr (Inl (env, fuel, inputValue, visited, st)) \<Rightarrow> (fuel, 2, 0)
      | Inr (Inr (Inl (env, fuel, vals, visited, st))) \<Rightarrow> (fuel, 1, length vals)
      | Inr (Inr (Inr (env, fuel, structureValue, visited, st))) \<Rightarrow> (fuel, 0, 0))")
  apply (auto simp: wf_lex_prod)
  done

text \<open>An in-order pass over the values of an object, each replaced by its processed form.\<close>

fun forEachValue ::
  "(json \<Rightarrow> 's \<Rightarrow> fault + (json \<times> 's)) \<Rightarrow> (string \<times> json) list \<Rightarrow> 's
     \<Rightarrow> fault + ((string \<times> json) list \<times> 's)" where
  "forEachValue f [] s = Inr ([], s)"
| "forEachValue f ((k, v) # rest) s =
     andThen (f v s)
       (\<lambda>(v1, s1).
          andThen (forEachValue f rest s1)
            (\<lambda>(rest1, s2). Inr ((k, v1) # rest1, s2)))"

definition processStructure ::
  "collaborators \<Rightarrow> nat \<Rightarrow> json \<Rightarrow> string list option \<times> loader
     \<Rightarrow> fault + (json \<times> string list option \<times> loader)" where
  "processStructure env fuel structure s =
     (case s of (visited, st) \<Rightarrow>
        (case structure of
           JObj sv \<Rightarrow>
             andThen (importFromGlobKey env sv Values_from_glob ''values'' True
                        (Some (chainOf visited)) st)
               (\<lambda>(sv1, visitedLocal1, st1).
                  (case arrayProp sv1 ''values'' of
                     None \<Rightarrow> Inr (JObj sv1, restoreVisited visited visitedLocal1, st1)
                   | Some vals \<Rightarrow>
                       andThen (processStructureValues env fuel vals visitedLocal1 st1)
                         (\<lambda>(vals1, visitedLocal2, st2).
                            Inr (JObj (setProp ''values'' (JArr vals1) sv1),
                                 restoreVisited visited visitedLocal2, st2))))
         | _ \<Rightarrow> Inr (structure, visited, st)))"

definition processStructuresKey ::
  "collaborators \<Rightarrow> nat \<Rightarrow> json \<Rightarrow> string list option \<Rightarrow> loader
     \<Rightarrow> fault + (json \<times> string list option \<times> loader)" where
  "processStructuresKey env fuel structures visited st =
     (case structures of
        JObj entries \<Rightarrow>
          andThen (forEachValue (processStructure env fuel) entries (visited, st))
            (\<lambda>(entries1, visited1, st1). Inr (JObj entries1, visited1, st1))
      | _ \<Rightarrow> Inr (structures, visited, st))"

text \<open>
  The calls the root, a collection, a schema and a snippet make: a reference key resolved
  with no visitation set, and \<^verbatim>\<open>processInputsKey(x._inputs)\<close>, \<^verbatim>\<open>processStructuresKey(x._structures)\<close>
  on a property that may be absent.
\<close>

definition importKey ::
  "collaborators \<Rightarrow> GlobTypeKey \<Rightarrow> string \<Rightarrow> (string \<times> json) list \<Rightarrow> loader
     \<Rightarrow> fault + ((string \<times> json) list \<times> loader)" where
  "importKey env globKey targetKey config st =
     andThen (importFromGlobKey env config globKey targetKey False None st)
       (\<lambda>(config1, visited1, st1). Inr (config1, st1))"

definition processInputsOf ::
  "collaborators \<Rightarrow> nat \<Rightarrow> (string \<times> json) list \<Rightarrow> loader
     \<Rightarrow> fault + ((string \<times> json) list \<times> loader)" where
  "processInputsOf env fuel config st =
     (case getProp config ''_inputs'' of
        None \<Rightarrow> Inr (config, st)
      | Some inputs \<Rightarrow>
          andThen (processInputsKey env fuel inputs None st)
            (\<lambda>(inputs1, visited1, st1). Inr (setProp ''_inputs'' inputs1 config, st1)))"

definition processStructuresOf ::
  "collaborators \<Rightarrow> nat \<Rightarrow> (string \<times> json) list \<Rightarrow> loader
     \<Rightarrow> fault + ((string \<times> json) list \<times> loader)" where
  "processStructuresOf env fuel config st =
     (case getProp config ''_structures'' of
        None \<Rightarrow> Inr (config, st)
      | Some structures \<Rightarrow>
          andThen (processStructuresKey env fuel structures None st)
            (\<lambda>(structures1, visited1, st1). Inr (setProp ''_structures'' structures1 config, st1)))"

definition importInputsAndStructures ::
  "collaborators \<Rightarrow> nat \<Rightarrow> (string \<times> json) list \<Rightarrow> loader
     \<Rightarrow> fault + ((string \<times> json) list \<times> loader)" where
  "importInputsAndStructures env fuel config st =
     andThen (importKey env Inputs_from_glob ''_inputs'' config st)
       (\<lambda>(config1, st1).
     andThen (importKey env Structures_from_glob ''_structures'' config1 st1)
       (\<lambda>(config2, st2).
     andThen (processInputsOf env fuel config2 st2)
       (\<lambda>(config3, st3). processStructuresOf env fuel config3 st3)))"

definition processSchema ::
  "collaborators \<Rightarrow> nat \<Rightarrow> json \<Rightarrow> loader \<Rightarrow> fault + (json \<times> loader)" where
  "processSchema env fuel schemaValue st =
     (case schemaValue of
        JObj sv \<Rightarrow>
          andThen (importInputsAndStructures env fuel sv st) (\<lambda>(sv1, st1). Inr (JObj sv1, st1))
      | _ \<Rightarrow> Inr (schemaValue, st))"

definition processCollection ::
  "collaborators \<Rightarrow> nat \<Rightarrow> json \<Rightarrow> loader \<Rightarrow> fault + (json \<times> loader)" where
  "processCollection env fuel collectionConfig st =
     (case collectionConfig of
        JObj c \<Rightarrow>
          andThen (if getProp c ''schemas_from_glob'' \<noteq> None then
                     importKey env Schemas_from_glob ''schemas'' c st
                   else Inr (c, st))
            (\<lambda>(c1, st1).
          andThen (importInputsAndStructures env fuel c1 st1)
            (\<lambda>(c2, st2).
               (case getProp c2 ''schemas'' of
                  Some (JObj schemas) \<Rightarrow>
                    andThen (forEachValue (processSchema env fuel) schemas st2)
                      (\<lambda>(schemas1, st3). Inr (JObj (setProp ''schemas'' (JObj schemas1) c2), st3))
                | _ \<Rightarrow> Inr (JObj c2, st2))))
      | _ \<Rightarrow> Inr (collectionConfig, st))"

definition processCollections ::
  "collaborators \<Rightarrow> nat \<Rightarrow> (string \<times> json) list \<Rightarrow> loader
     \<Rightarrow> fault + ((string \<times> json) list \<times> loader)" where
  "processCollections env fuel config st =
     (case getProp config ''collections_config'' of
        Some (JObj collections) \<Rightarrow>
          andThen (forEachValue (processCollection env fuel) collections st)
            (\<lambda>(collections1, st1).
               Inr (setProp ''collections_config'' (JObj collections1) config, st1))
      | _ \<Rightarrow> Inr (config, st))"

definition processSnippet ::
  "collaborators \<Rightarrow> nat \<Rightarrow> json \<Rightarrow> loader \<Rightarrow> fault + (json \<times> loader)" where
  "processSnippet env fuel snippetConfig st =
     (case snippetConfig of
        JObj sc \<Rightarrow>
          andThen (importInputsAndStructures env fuel sc st) (\<lambda>(sc1, st1). Inr (JObj sc1, st1))
      | _ \<Rightarrow> Inr (snippetConfig, st))"

definition processSnippets ::
  "collaborators \<Rightarrow> nat \<Rightarrow> (string \<times> json) list \<Rightarrow> loader
     \<Rightarrow> fault + ((string \<times> json) list \<times> loader)" where
  "processSnippets env fuel config st =
     (case getProp config ''_snippets'' of
        Some (JObj snippets) \<Rightarrow>
          andThen (importKey env Inputs_from_glob ''_inputs'' snippets st)
            (\<lambda>(snippets1, st1).
          andThen (forEachValue (processSnippet env fuel) snippets1 st1)
            (\<lambda>(snippets2, st2). Inr (setProp ''_snippets'' (JObj snippets2) config, st2)))
      | _ \<Rightarrow> Inr (config, st))"

text \<open>The root-level reference keys, in the order the walker resolves them.\<close>

definition rootKeys :: "(GlobTypeKey \<times> string) list" where
  "rootKeys =
     [(Snippets_from_glob, ''_snippets''),
      (Snippets_imports_from_glob, ''_snippets_imports''),
      (Snippets_templates_from_glob, ''_snippets_templates''),
      (Snippets_definitions_from_glob, ''_snippets_definitions''),
      (Collections_config_from_glob, ''collections_config''),
      (Inputs_from_glob, ''_inputs''),
      (Structures_from_glob, ''_structures'')]"

fun importRootKeys ::
  "collaborators \<Rightarrow> (GlobTypeKey \<times> string) list \<Rightarrow> (string \<times> json) list \<Rightarrow> loader
     \<Rightarrow> fault + ((string \<times> json) list \<times> loader)" where
  "importRootKeys env [] config st = Inr (config, st)"
| "importRootKeys env ((globKey, targetKey) # keys) config st =
     andThen (importKey env globKey targetKey config st)
       (\<lambda>(config1, st1). importRootKeys env keys config1 st1)"

text \<open>\<^verbatim>\<open>ConfigurationLoader.mergeConfiguration\<close>, the method.\<close>

definition loaderMergeConfiguration ::
  "collaborators \<Rightarrow> nat \<Rightarrow> (string \<times> json) list \<Rightarrow> loader
     \<Rightarrow> fault + ((string \<times> json) list \<times> loader)" where
  "loaderMergeConfiguration env fuel config st =
     andThen (importRootKeys env rootKeys config (st\<lparr>warnings := emptyWarnings, globPatterns := []\<rparr>))
       (\<lambda>(config1, st1).
     andThen (processInputsOf env fuel config1 st1)
       (\<lambda>(config2, st2).
     andThen (processStructuresOf env fuel config2 st2)
       (\<lambda>(config3, st3).
     andThen (processCollections env fuel config3 st3)
       (\<lambda>(config4, st4). processSnippets env fuel config4 st4))))"

section \<open>Diagnostics deduplication\<close>

text \<open>
  \<^verbatim>\<open>chain.join(' \<rightarrow> ')\<close>; the separator is a space, the arrow U+2192 (three bytes in UTF-8)
  and a space.
\<close>

definition arrowSeparator :: string where
  "arrowSeparator = [CHR '' '', CHR 0xE2, CHR 0x86, CHR 0x92, CHR '' '']"

fun joinWith :: "string \<Rightarrow> string list \<Rightarrow> string" where
  "joinWith sep [] = []"
| "joinWith sep [x] = x"
| "joinWith sep (x # y # ys) = x @ sep @ joinWith sep (y # ys)"

definition sameCycle :: "cycleWarning \<Rightarrow> cycleWarning \<Rightarrow> bool" where
  "sameCycle w warning =
     (cyclePath w = cyclePath warning
      \<and> joinWith arrowSeparator (cycleChain w) = joinWith arrowSeparator (cycleChain warning))"

definition sameMultipleGlobKeys :: "multipleGlobKeysWarning \<Rightarrow> multipleGlobKeysWarning \<Rightarrow> bool" where
  "sameMultipleGlobKeys w warning =
     (conflictPath w = conflictPath warning \<and> type1 w = type1 warning \<and> type2 w = type2 warning)"

definition sameArrayValue :: "arrayValueWarning \<Rightarrow> arrayValueWarning \<Rightarrow> bool" where
  "sameArrayValue w warning = (arrayPath w = arrayPath warning)"

fun pushUnique :: "('a \<Rightarrow> 'a \<Rightarrow> bool) \<Rightarrow> 'a list \<Rightarrow> 'a list \<Rightarrow> 'a list" where
  "pushUnique same [] result = result"
| "pushUnique same (warning # rest) result =
     pushUnique same rest
       (if list_ex (\<lambda>w. same w warning) result then result else result @ [warning])"

definition removeDuplicateWarnings :: "GlobLoaderWarnings \<Rightarrow> GlobLoaderWarnings" where
  "removeDuplicateWarnings ws =
     \<lparr>cycles = pushUnique sameCycle (cycles ws) [],
      multipleGlobKeys = pushUnique sameMultipleGlobKeys (multipleGlobKeys ws) [],
      arrayValues = pushUnique sameArrayValue (arrayValues ws) []\<rparr>"

section \<open>The exported entry point\<close>

text \<open>
  The result carries the loader's \<open>pathsToGlobKey\<close>, \<open>globKeyToPaths\<close> and \<open>globPatterns\<close>,
  its warnings deduplicated, and the merged tree.
\<close>

record GlobResult = loader +
  config :: "(string \<times> json) list"

definition mergeConfiguration ::
  "collaborators \<Rightarrow> nat \<Rightarrow> (string \<times> json) list \<Rightarrow> fault + GlobResult" where
  "mergeConfiguration env fuel cfg =
     andThen (loaderMergeConfiguration env fuel cfg newLoader)
       (\<lambda>(result, st).
          Inr \<lparr>warnings = removeDuplicateWarnings (warnings st),
               pathsToGlobKey = pathsToGlobKey st,
               globKeyToPaths = globKeyToPaths st,
               globPatterns = globPatterns st,
               calls = calls st,
               config = result\<rparr>)"



section \<open>The loader on a store\<close>

text \<open>
  The functions above pass trees by value, so in them a caller's tree cannot change. What
  the program does to objects the caller holds is a statement about object identity: here
  the same methods work on a store, in which every array and every object is a cell at an
  address, a property or an element holds a primitive or a reference, \<^verbatim>\<open>obj[k] = v\<close> and
  \<^verbatim>\<open>delete obj[k]\<close> update the cell of \<open>obj\<close> in place, and an object or array literal and
  \<^verbatim>\<open>JSON.parse\<close> allocate new cells. The loader's own fields are the \<open>loader\<close> record, as
  before.
\<close>

datatype jsval = VNull | VBool bool | VNum int | VStr string | VRef nat

datatype cell = ObjCell "(string \<times> jsval) list" | ArrCell "jsval list"

type_synonym store = "cell list"

record world =
  heap :: store
  loaderOf :: loader

text \<open>
  A step of the program: it returns a value or raises a fault, and leaves a world either
  way.
\<close>

type_synonym 'a action = "world \<Rightarrow> (fault + 'a) \<times> world"

definition returnS :: "'a \<Rightarrow> 'a action" where
  "returnS x w = (Inr x, w)"

definition raiseS :: "fault \<Rightarrow> 'a action" where
  "raiseS e w = (Inl e, w)"

definition bindS :: "'a action \<Rightarrow> ('a \<Rightarrow> 'b action) \<Rightarrow> 'b action" where
  "bindS m f w = (case m w of (Inl e, w1) \<Rightarrow> (Inl e, w1) | (Inr x, w1) \<Rightarrow> f x w1)"

lemma bindS_cong [fundef_cong]:
  "m = m' \<Longrightarrow> (\<And>x. f x = f' x) \<Longrightarrow> bindS m f = bindS m' f'"
  by (auto simp: fun_eq_iff bindS_def split: prod.splits sum.splits)

definition readS :: "(store \<Rightarrow> 'a) \<Rightarrow> 'a action" where
  "readS f w = (Inr (f (heap w)), w)"

definition loaderS :: "(loader \<Rightarrow> 'a \<times> loader) \<Rightarrow> 'a action" where
  "loaderS f w = (case f (loaderOf w) of (x, st1) \<Rightarrow> (Inr x, w\<lparr>loaderOf := st1\<rparr>))"

subsection \<open>Reading and writing cells\<close>

definition cellAt :: "store \<Rightarrow> jsval \<Rightarrow> cell option" where
  "cellAt h v = (case v of VRef a \<Rightarrow> if a < length h then Some (h ! a) else None | _ \<Rightarrow> None)"

text \<open>\<^verbatim>\<open>isObject(v)\<close>, with the properties of \<open>v\<close>; \<^verbatim>\<open>Array.isArray(v)\<close>, with its elements.\<close>

definition objFields :: "store \<Rightarrow> jsval \<Rightarrow> (string \<times> jsval) list option" where
  "objFields h v = (case cellAt h v of Some (ObjCell kvs) \<Rightarrow> Some kvs | _ \<Rightarrow> None)"

definition arrElems :: "store \<Rightarrow> jsval \<Rightarrow> jsval list option" where
  "arrElems h v = (case cellAt h v of Some (ArrCell vs) \<Rightarrow> Some vs | _ \<Rightarrow> None)"

text \<open>\<^verbatim>\<open>v[k]\<close> for a property name \<open>k\<close>; \<open>None\<close> is \<^verbatim>\<open>undefined\<close>.\<close>

definition propOf :: "store \<Rightarrow> jsval \<Rightarrow> string \<Rightarrow> jsval option" where
  "propOf h v k = (case objFields h v of Some kvs \<Rightarrow> getProp kvs k | None \<Rightarrow> None)"

fun truthyV :: "jsval \<Rightarrow> bool" where
  "truthyV VNull = False"
| "truthyV (VBool b) = b"
| "truthyV (VNum n) = (n \<noteq> 0)"
| "truthyV (VStr s) = (s \<noteq> [])"
| "truthyV (VRef a) = True"

definition truthyOpt :: "jsval option \<Rightarrow> jsval option" where
  "truthyOpt v = (case v of None \<Rightarrow> None | Some x \<Rightarrow> if truthyV x then Some x else None)"

definition alloc :: "cell \<Rightarrow> jsval action" where
  "alloc c w = (Inr (VRef (length (heap w))), w\<lparr>heap := heap w @ [c]\<rparr>)"

definition updateObj :: "((string \<times> jsval) list \<Rightarrow> (string \<times> jsval) list) \<Rightarrow> jsval \<Rightarrow> store \<Rightarrow> store" where
  "updateObj f v h =
     (case v of
        VRef a \<Rightarrow> (case cellAt h v of Some (ObjCell kvs) \<Rightarrow> h[a := ObjCell (f kvs)] | _ \<Rightarrow> h)
      | _ \<Rightarrow> h)"

definition setField :: "jsval \<Rightarrow> string \<Rightarrow> jsval \<Rightarrow> unit action" where
  "setField obj k v w = (Inr (), w\<lparr>heap := updateObj (setProp k v) obj (heap w)\<rparr>)"

definition deleteField :: "jsval \<Rightarrow> string \<Rightarrow> unit action" where
  "deleteField obj k w = (Inr (), w\<lparr>heap := updateObj (deleteProp k) obj (heap w)\<rparr>)"

text \<open>\<^verbatim>\<open>arr.push(v)\<close>\<close>

definition pushElem :: "jsval \<Rightarrow> jsval \<Rightarrow> unit action" where
  "pushElem arr v w =
     (Inr (),
      w\<lparr>heap := (case arr of
           VRef a \<Rightarrow> (case cellAt (heap w) arr of
                        Some (ArrCell vs) \<Rightarrow> (heap w)[a := ArrCell (vs @ [v])]
                      | _ \<Rightarrow> heap w)
         | _ \<Rightarrow> heap w)\<rparr>)"

subsection \<open>\<^verbatim>\<open>JSON.parse\<close> and \<^verbatim>\<open>JSON.stringify\<close>\<close>

text \<open>\<^verbatim>\<open>JSON.parse\<close> of the text of a JSON value: a new cell for every array and object.\<close>

fun parse :: "json \<Rightarrow> store \<Rightarrow> jsval \<times> store"
and parseList :: "json list \<Rightarrow> store \<Rightarrow> jsval list \<times> store"
and parseFields :: "(string \<times> json) list \<Rightarrow> store \<Rightarrow> (string \<times> jsval) list \<times> store" where
  "parse JNull h = (VNull, h)"
| "parse (JBool b) h = (VBool b, h)"
| "parse (JNum n) h = (VNum n, h)"
| "parse (JStr s) h = (VStr s, h)"
| "parse (JArr xs) h = (case parseList xs h of (vs, h1) \<Rightarrow> (VRef (length h1), h1 @ [ArrCell vs]))"
| "parse (JObj kvs) h = (case parseFields kvs h of (fs, h1) \<Rightarrow> (VRef (length h1), h1 @ [ObjCell fs]))"
| "parseList [] h = ([], h)"
| "parseList (x # xs) h =
     (case parse x h of (v, h1) \<Rightarrow> (case parseList xs h1 of (vs, h2) \<Rightarrow> (v # vs, h2)))"
| "parseFields [] h = ([], h)"
| "parseFields ((k, x) # kvs) h =
     (case parse x h of (v, h1) \<Rightarrow> (case parseFields kvs h1 of (fs, h2) \<Rightarrow> ((k, v) # fs, h2)))"

definition parseS :: "json \<Rightarrow> jsval action" where
  "parseS j w = (case parse j (heap w) of (v, h1) \<Rightarrow> (Inr v, w\<lparr>heap := h1\<rparr>))"

text \<open>
  The JSON content of a value, read to a depth of \<open>n\<close> references. On a store of \<open>n\<close> cells
  a value whose content is not found within depth \<open>n\<close> is circular: \<^verbatim>\<open>JSON.stringify\<close>
  raises a \<^verbatim>\<open>TypeError\<close> for it.
\<close>

function (sequential) readVal :: "nat \<Rightarrow> store \<Rightarrow> jsval \<Rightarrow> json option"
and readList :: "nat \<Rightarrow> store \<Rightarrow> jsval list \<Rightarrow> json list option"
and readFields :: "nat \<Rightarrow> store \<Rightarrow> (string \<times> jsval) list \<Rightarrow> (string \<times> json) list option" where
  "readVal n h VNull = Some JNull"
| "readVal n h (VBool b) = Some (JBool b)"
| "readVal n h (VNum i) = Some (JNum i)"
| "readVal n h (VStr s) = Some (JStr s)"
| "readVal 0 h (VRef a) = None"
| "readVal (Suc n) h (VRef a) =
     (if a < length h then
        (case h ! a of
           ObjCell kvs \<Rightarrow> map_option JObj (readFields n h kvs)
         | ArrCell vs \<Rightarrow> map_option JArr (readList n h vs))
      else None)"
| "readList n h [] = Some []"
| "readList n h (v # vs) =
     (case readVal n h v of
        None \<Rightarrow> None
      | Some j \<Rightarrow> (case readList n h vs of None \<Rightarrow> None | Some js \<Rightarrow> Some (j # js)))"
| "readFields n h [] = Some []"
| "readFields n h ((k, v) # kvs) =
     (case readVal n h v of
        None \<Rightarrow> None
      | Some j \<Rightarrow> (case readFields n h kvs of None \<Rightarrow> None | Some js \<Rightarrow> Some ((k, j) # js)))"
  by pat_completeness auto

termination
  apply (relation "inv_image (less_than <*lex*> less_than <*lex*> less_than)
    (\<lambda>x. case x of
        Inl (n, h, v) \<Rightarrow> (n, 0::nat, 0::nat)
      | Inr (Inl (n, h, vs)) \<Rightarrow> (n, 1, length vs)
      | Inr (Inr (n, h, kvs)) \<Rightarrow> (n, 1, length kvs))")
  apply (auto simp: wf_lex_prod)
  done

definition stringify :: "store \<Rightarrow> jsval \<Rightarrow> json option" where
  "stringify h v = readVal (length h) h v"

text \<open>What a collaborator sees of a value it is handed.\<close>

definition contentOf :: "store \<Rightarrow> jsval \<Rightarrow> json" where
  "contentOf h v = (case stringify h v of Some j \<Rightarrow> j | None \<Rightarrow> JNull)"

subsection \<open>Merge functions\<close>

text \<open>
  \<^verbatim>\<open>isObject(v) ? { ...v, __source__: source } : v\<close>: a new object with the properties of
  \<open>v\<close>, or \<open>v\<close> itself.
\<close>

definition stampS :: "string \<Rightarrow> jsval \<Rightarrow> jsval action" where
  "stampS source v =
     bindS (readS (\<lambda>h. objFields h v))
       (\<lambda>fields. case fields of
           Some kvs \<Rightarrow> alloc (ObjCell (setProp ''__source__'' (VStr source) kvs))
         | None \<Rightarrow> returnS v)"

fun mergeEntriesS :: "jsval \<Rightarrow> string \<Rightarrow> (string \<times> jsval) list \<Rightarrow> unit action" where
  "mergeEntriesS result source [] = returnS ()"
| "mergeEntriesS result source ((key, v) # rest) =
     bindS (stampS source v)
       (\<lambda>v1. bindS (setField result key v1) (\<lambda>u. mergeEntriesS result source rest))"

fun mergeObjectLoopS :: "jsval \<Rightarrow> (jsval \<times> string) list \<Rightarrow> unit action" where
  "mergeObjectLoopS result [] = returnS ()"
| "mergeObjectLoopS result ((item, source) # rest) =
     bindS (readS (\<lambda>h. objFields h item))
       (\<lambda>fields.
          bindS (case fields of
                   Some entries \<Rightarrow> mergeEntriesS result source entries
                 | None \<Rightarrow> returnS ())
            (\<lambda>u. mergeObjectLoopS result rest))"

text \<open>\<^verbatim>\<open>{ ...base }\<close> and \<^verbatim>\<open>[ ...base ]\<close>\<close>

definition objectSpreadS :: "store \<Rightarrow> jsval \<Rightarrow> (string \<times> jsval) list" where
  "objectSpreadS h base =
     (case base of
        VRef a \<Rightarrow>
          (case cellAt h base of
             Some (ObjCell kvs) \<Rightarrow> kvs
           | Some (ArrCell vs) \<Rightarrow> indexed vs
           | None \<Rightarrow> [])
      | VStr s \<Rightarrow> indexed (map (\<lambda>c. VStr [c]) s)
      | _ \<Rightarrow> [])"

definition arraySpreadS :: "store \<Rightarrow> jsval \<Rightarrow> fault + jsval list" where
  "arraySpreadS h base =
     (case base of
        VRef a \<Rightarrow> (case cellAt h base of Some (ArrCell vs) \<Rightarrow> Inr vs | _ \<Rightarrow> Inl TypeError)
      | VStr s \<Rightarrow> Inr (map (\<lambda>c. VStr [c]) s)
      | _ \<Rightarrow> Inl TypeError)"

definition mergeObjectValuesS :: "jsval \<Rightarrow> (jsval \<times> string) list \<Rightarrow> jsval action" where
  "mergeObjectValuesS base loaded =
     bindS (readS (\<lambda>h. objectSpreadS h base)) (\<lambda>fields.
     bindS (alloc (ObjCell fields)) (\<lambda>result.
     bindS (mergeObjectLoopS result loaded) (\<lambda>u. returnS result)))"

fun pushStamped :: "jsval \<Rightarrow> string \<Rightarrow> jsval list \<Rightarrow> unit action" where
  "pushStamped result source [] = returnS ()"
| "pushStamped result source (element # rest) =
     bindS (stampS source element)
       (\<lambda>v. bindS (pushElem result v) (\<lambda>u. pushStamped result source rest))"

fun mergeArrayLoopS :: "jsval \<Rightarrow> (jsval \<times> string) list \<Rightarrow> unit action" where
  "mergeArrayLoopS result [] = returnS ()"
| "mergeArrayLoopS result ((item, source) # rest) =
     bindS (readS (\<lambda>h. arrElems h item))
       (\<lambda>elements.
          bindS (case elements of
                   Some es \<Rightarrow> pushStamped result source es
                 | None \<Rightarrow> pushStamped result source [item])
            (\<lambda>u. mergeArrayLoopS result rest))"

definition mergeArrayValuesS :: "jsval \<Rightarrow> (jsval \<times> string) list \<Rightarrow> jsval action" where
  "mergeArrayValuesS base loaded =
     bindS (readS (\<lambda>h. arraySpreadS h base))
       (\<lambda>elements. case elements of
           Inl e \<Rightarrow> raiseS e
         | Inr vs \<Rightarrow>
             bindS (alloc (ArrCell vs)) (\<lambda>result.
             bindS (mergeArrayLoopS result loaded) (\<lambda>u. returnS result)))"

subsection \<open>Resolving one reference key\<close>

text \<open>
  The fragments come from \<open>loadFilesFromGlobs\<close> as before; each is the result of a
  \<^verbatim>\<open>JSON.parse\<close>, so its cells are new.
\<close>

fun parseLoaded :: "(json \<times> string) list \<Rightarrow> ((jsval \<times> string) list) action" where
  "parseLoaded [] = returnS []"
| "parseLoaded ((d, source) # rest) =
     bindS (parseS d) (\<lambda>v. bindS (parseLoaded rest) (\<lambda>vs. returnS ((v, source) # vs)))"

definition importFromGlobKeyS ::
  "collaborators \<Rightarrow> jsval \<Rightarrow> GlobTypeKey \<Rightarrow> string \<Rightarrow> bool \<Rightarrow> string list option
     \<Rightarrow> (string list option) action" where
  "importFromGlobKeyS env cfg globKey targetKey isArray visited =
     (if cfg = VNull then raiseS TypeError
      else
        bindS (readS (\<lambda>h. case propOf h cfg (keyName globKey) of
                             None \<Rightarrow> None
                           | Some globs \<Rightarrow> map_option (map (contentOf h)) (arrElems h globs)))
          (\<lambda>found. case found of
              None \<Rightarrow> returnS visited
            | Some globs \<Rightarrow>
                bindS (loaderS (\<lambda>st.
                         case loadFilesFromGlobs env globs globKey visited
                                (st\<lparr>globPatterns := foldl addPattern (globPatterns st) globs\<rparr>) of
                           (loaded, visited1, st1) \<Rightarrow> ((loaded, visited1), st1)))
                  (\<lambda>found1.
                bindS (parseLoaded (fst found1)) (\<lambda>loadedDataWithSources.
                bindS (readS (\<lambda>h. truthyOpt (propOf h cfg targetKey))) (\<lambda>base.
                bindS (case base of
                         Some b \<Rightarrow> returnS b
                       | None \<Rightarrow> alloc (if isArray then ArrCell [] else ObjCell [])) (\<lambda>base1.
                bindS (if isArray then mergeArrayValuesS base1 loadedDataWithSources
                       else mergeObjectValuesS base1 loadedDataWithSources) (\<lambda>merged.
                bindS (setField cfg targetKey merged) (\<lambda>u.
                bindS (deleteField cfg (keyName globKey)) (\<lambda>u. returnS (snd found1))))))))))"

subsection \<open>Tree walker\<close>

definition inputStructuresS :: "store \<Rightarrow> jsval \<Rightarrow> jsval option" where
  "inputStructuresS h inputValue =
     (case objFields h inputValue of
        None \<Rightarrow> None
      | Some iv \<Rightarrow>
          (case getProp iv ''options'' of
             None \<Rightarrow> None
           | Some opts \<Rightarrow>
               (case objFields h opts of
                  None \<Rightarrow> None
                | Some ov \<Rightarrow>
                    (case getProp ov ''structures'' of
                       None \<Rightarrow> None
                     | Some structures \<Rightarrow>
                         (case objFields h structures of
                            None \<Rightarrow> None
                          | Some sv \<Rightarrow> Some structures)))))"

definition importIfTruthyS ::
  "collaborators \<Rightarrow> jsval \<Rightarrow> GlobTypeKey \<Rightarrow> string \<Rightarrow> bool \<Rightarrow> string list option
     \<Rightarrow> (string list option) action" where
  "importIfTruthyS env cfg globKey targetKey isArray visited =
     bindS (readS (\<lambda>h. truthyOpt (propOf h cfg (keyName globKey))))
       (\<lambda>g. case g of
           None \<Rightarrow> returnS visited
         | Some x \<Rightarrow> importFromGlobKeyS env cfg globKey targetKey isArray visited)"

definition arrayPropS :: "store \<Rightarrow> jsval \<Rightarrow> string \<Rightarrow> jsval list option" where
  "arrayPropS h v k = (case propOf h v k of None \<Rightarrow> None | Some x \<Rightarrow> arrElems h x)"

function (sequential) processInputsKeyS ::
  "collaborators \<Rightarrow> nat \<Rightarrow> jsval \<Rightarrow> string list option \<Rightarrow> (string list option) action"
and processInputValuesS ::
  "collaborators \<Rightarrow> nat \<Rightarrow> jsval list \<Rightarrow> string list option \<Rightarrow> (string list option) action"
and processInputValueS ::
  "collaborators \<Rightarrow> nat \<Rightarrow> jsval \<Rightarrow> string list option \<Rightarrow> (string list option) action"
and processStructureValuesS ::
  "collaborators \<Rightarrow> nat \<Rightarrow> jsval list \<Rightarrow> string list option \<Rightarrow> (string list option) action"
and processStructureValueS ::
  "collaborators \<Rightarrow> nat \<Rightarrow> jsval \<Rightarrow> string list option \<Rightarrow> (string list option) action"
where
  "processInputsKeyS env fuel inputs visited =
     bindS (readS (\<lambda>h. objFields h inputs))
       (\<lambda>fields. case fields of
           None \<Rightarrow> returnS visited
         | Some entries \<Rightarrow> processInputValuesS env fuel (map snd entries) visited)"
| "processInputValuesS env fuel [] visited = returnS visited"
| "processInputValuesS env fuel (inputValue # rest) visited =
     bindS (processInputValueS env fuel inputValue visited)
       (\<lambda>visited1. processInputValuesS env fuel rest visited1)"
| "processInputValueS env fuel inputValue visited =
     bindS (readS (\<lambda>h. inputStructuresS h inputValue))
       (\<lambda>found. case found of
           None \<Rightarrow> returnS visited
         | Some structures \<Rightarrow>
             bindS (importIfTruthyS env structures Values_from_glob ''values'' True
                      (Some (chainOf visited)))
               (\<lambda>visitedLocal1.
             bindS (readS (\<lambda>h. arrayPropS h structures ''values''))
               (\<lambda>vals. case vals of
                   None \<Rightarrow> returnS (restoreVisited visited visitedLocal1)
                 | Some vs \<Rightarrow>
                     bindS (processStructureValuesS env fuel vs visitedLocal1)
                       (\<lambda>visitedLocal2. returnS (restoreVisited visited visitedLocal2)))))"
| "processStructureValuesS env fuel [] visited = returnS visited"
| "processStructureValuesS env fuel (structureValue # rest) visited =
     bindS (processStructureValueS env fuel structureValue visited)
       (\<lambda>visited1. processStructureValuesS env fuel rest visited1)"
| "processStructureValueS env 0 structureValue visited = raiseS OutOfFuel"
| "processStructureValueS env (Suc fuel) structureValue visited =
     bindS (readS (\<lambda>h. objFields h structureValue))
       (\<lambda>fields. case fields of
           None \<Rightarrow> returnS visited
         | Some sv \<Rightarrow>
             bindS (importIfTruthyS env structureValue Inputs_from_glob ''_inputs'' False visited)
               (\<lambda>visited1.
             bindS (readS (\<lambda>h. truthyOpt (propOf h structureValue ''_inputs'')))
               (\<lambda>inputs. case inputs of
                   None \<Rightarrow> returnS visited1
                 | Some i \<Rightarrow> processInputsKeyS env fuel i visited1)))"
  by pat_completeness auto

termination
  apply (relation "inv_image (less_than <*lex*> less_than <*lex*> less_than)
    (\<lambda>x. case x of
        Inl (Inl (env, fuel, inputs, visited)) \<Rightarrow> (fuel, 4::nat, 0::nat)
      | Inl (Inr (env, fuel, inputValues, visited)) \<Rightarrow> (fuel, 3, length inputValues)
      | Inr (Inl (env, fuel, inputValue, visited)) \<Rightarrow> (fuel, 2, 0)
      | Inr (Inr (Inl (env, fuel, vals, visited))) \<Rightarrow> (fuel, 1, length vals)
      | Inr (Inr (Inr (env, fuel, structureValue, visited))) \<Rightarrow> (fuel, 0, 0))")
  apply (auto simp: wf_lex_prod)
  done

text \<open>A loop over a list of values, one after the other.\<close>

fun forEachS :: "('a \<Rightarrow> 's \<Rightarrow> 's action) \<Rightarrow> 'a list \<Rightarrow> 's \<Rightarrow> 's action" where
  "forEachS f [] s = returnS s"
| "forEachS f (x # xs) s = bindS (f x s) (\<lambda>s1. forEachS f xs s1)"

definition processStructureS ::
  "collaborators \<Rightarrow> nat \<Rightarrow> jsval \<Rightarrow> string list option \<Rightarrow> (string list option) action" where
  "processStructureS env fuel structure visited =
     bindS (readS (\<lambda>h. objFields h structure))
       (\<lambda>fields. case fields of
           None \<Rightarrow> returnS visited
         | Some sv \<Rightarrow>
             bindS (importFromGlobKeyS env structure Values_from_glob ''values'' True
                      (Some (chainOf visited)))
               (\<lambda>visitedLocal1.
             bindS (readS (\<lambda>h. arrayPropS h structure ''values''))
               (\<lambda>vals. case vals of
                   None \<Rightarrow> returnS (restoreVisited visited visitedLocal1)
                 | Some vs \<Rightarrow>
                     bindS (processStructureValuesS env fuel vs visitedLocal1)
                       (\<lambda>visitedLocal2. returnS (restoreVisited visited visitedLocal2)))))"

definition processStructuresKeyS ::
  "collaborators \<Rightarrow> nat \<Rightarrow> jsval \<Rightarrow> string list option \<Rightarrow> (string list option) action" where
  "processStructuresKeyS env fuel structures visited =
     bindS (readS (\<lambda>h. objFields h structures))
       (\<lambda>fields. case fields of
           None \<Rightarrow> returnS visited
         | Some entries \<Rightarrow> forEachS (processStructureS env fuel) (map snd entries) visited)"

definition importKeyS :: "collaborators \<Rightarrow> jsval \<Rightarrow> GlobTypeKey \<Rightarrow> string \<Rightarrow> unit action" where
  "importKeyS env cfg globKey targetKey =
     bindS (importFromGlobKeyS env cfg globKey targetKey False None) (\<lambda>visited1. returnS ())"

definition processInputsOfS :: "collaborators \<Rightarrow> nat \<Rightarrow> jsval \<Rightarrow> unit action" where
  "processInputsOfS env fuel cfg =
     bindS (readS (\<lambda>h. propOf h cfg ''_inputs''))
       (\<lambda>inputs. case inputs of
           None \<Rightarrow> returnS ()
         | Some i \<Rightarrow> bindS (processInputsKeyS env fuel i None) (\<lambda>visited1. returnS ()))"

definition processStructuresOfS :: "collaborators \<Rightarrow> nat \<Rightarrow> jsval \<Rightarrow> unit action" where
  "processStructuresOfS env fuel cfg =
     bindS (readS (\<lambda>h. propOf h cfg ''_structures''))
       (\<lambda>structures. case structures of
           None \<Rightarrow> returnS ()
         | Some s \<Rightarrow> bindS (processStructuresKeyS env fuel s None) (\<lambda>visited1. returnS ()))"

definition importInputsAndStructuresS :: "collaborators \<Rightarrow> nat \<Rightarrow> jsval \<Rightarrow> unit action" where
  "importInputsAndStructuresS env fuel cfg =
     bindS (importKeyS env cfg Inputs_from_glob ''_inputs'') (\<lambda>u.
     bindS (importKeyS env cfg Structures_from_glob ''_structures'') (\<lambda>u.
     bindS (processInputsOfS env fuel cfg) (\<lambda>u. processStructuresOfS env fuel cfg)))"

definition processSchemaS :: "collaborators \<Rightarrow> nat \<Rightarrow> jsval \<Rightarrow> unit \<Rightarrow> unit action" where
  "processSchemaS env fuel schemaValue u =
     bindS (readS (\<lambda>h. objFields h schemaValue))
       (\<lambda>fields. case fields of
           None \<Rightarrow> returnS ()
         | Some sv \<Rightarrow> importInputsAndStructuresS env fuel schemaValue)"

text \<open>
  One entry of \<^verbatim>\<open>Object.entries(config.collections_config)\<close>. The collection is read again
  from \<^verbatim>\<open>config.collections_config[collectionKey]\<close>, as the source does.
\<close>

definition processCollectionS ::
  "collaborators \<Rightarrow> nat \<Rightarrow> jsval \<Rightarrow> string \<times> jsval \<Rightarrow> unit \<Rightarrow> unit action" where
  "processCollectionS env fuel cfg entry u =
     bindS (readS (\<lambda>h. objFields h (snd entry)))
       (\<lambda>fields. case fields of
           None \<Rightarrow> returnS ()
         | Some cf \<Rightarrow>
             bindS (if getProp cf ''schemas_from_glob'' \<noteq> None then
                      importKeyS env (snd entry) Schemas_from_glob ''schemas''
                    else returnS ()) (\<lambda>u.
             bindS (readS (\<lambda>h. case propOf h cfg ''collections_config'' of
                                  None \<Rightarrow> None
                                | Some collections \<Rightarrow> propOf h collections (fst entry)))
               (\<lambda>found. case found of
                   None \<Rightarrow> raiseS TypeError
                 | Some collection \<Rightarrow>
                     bindS (importInputsAndStructuresS env fuel collection) (\<lambda>u.
                     bindS (readS (\<lambda>h. case propOf h collection ''schemas'' of
                                          None \<Rightarrow> None
                                        | Some schemas \<Rightarrow> objFields h schemas))
                       (\<lambda>schemas. case schemas of
                           None \<Rightarrow> returnS ()
                         | Some entries \<Rightarrow>
                             forEachS (processSchemaS env fuel) (map snd entries) ())))))"

definition objectPropS :: "store \<Rightarrow> jsval \<Rightarrow> string \<Rightarrow> (jsval \<times> (string \<times> jsval) list) option" where
  "objectPropS h v k =
     (case truthyOpt (propOf h v k) of
        None \<Rightarrow> None
      | Some x \<Rightarrow> map_option (\<lambda>kvs. (x, kvs)) (objFields h x))"

definition processCollectionsS :: "collaborators \<Rightarrow> nat \<Rightarrow> jsval \<Rightarrow> unit action" where
  "processCollectionsS env fuel cfg =
     bindS (readS (\<lambda>h. objectPropS h cfg ''collections_config''))
       (\<lambda>found. case found of
           None \<Rightarrow> returnS ()
         | Some collections \<Rightarrow> forEachS (processCollectionS env fuel cfg) (snd collections) ())"

definition processSnippetS :: "collaborators \<Rightarrow> nat \<Rightarrow> jsval \<Rightarrow> unit \<Rightarrow> unit action" where
  "processSnippetS env fuel snippetConfig u =
     bindS (readS (\<lambda>h. objFields h snippetConfig))
       (\<lambda>fields. case fields of
           None \<Rightarrow> returnS ()
         | Some sc \<Rightarrow> importInputsAndStructuresS env fuel snippetConfig)"

definition processSnippetsS :: "collaborators \<Rightarrow> nat \<Rightarrow> jsval \<Rightarrow> unit action" where
  "processSnippetsS env fuel cfg =
     bindS (readS (\<lambda>h. objectPropS h cfg ''_snippets''))
       (\<lambda>found. case found of
           None \<Rightarrow> returnS ()
         | Some snippets \<Rightarrow>
             bindS (importKeyS env (fst snippets) Inputs_from_glob ''_inputs'') (\<lambda>u.
             bindS (readS (\<lambda>h. objectPropS h cfg ''_snippets''))
               (\<lambda>again. case again of
                   None \<Rightarrow> raiseS TypeError
                 | Some snippets1 \<Rightarrow>
                     forEachS (processSnippetS env fuel) (map snd (snd snippets1)) ())))"

definition importRootKeyS :: "collaborators \<Rightarrow> jsval \<Rightarrow> GlobTypeKey \<times> string \<Rightarrow> unit \<Rightarrow> unit action" where
  "importRootKeyS env cfg key u = importKeyS env cfg (fst key) (snd key)"

text \<open>\<^verbatim>\<open>ConfigurationLoader.mergeConfiguration\<close>, the method: it returns the object it was given.\<close>

definition loaderMergeConfigurationS :: "collaborators \<Rightarrow> nat \<Rightarrow> jsval \<Rightarrow> jsval action" where
  "loaderMergeConfigurationS env fuel cfg =
     bindS (loaderS (\<lambda>st. ((), st\<lparr>warnings := emptyWarnings, globPatterns := []\<rparr>))) (\<lambda>u.
     bindS (forEachS (importRootKeyS env cfg) rootKeys ()) (\<lambda>u.
     bindS (processInputsOfS env fuel cfg) (\<lambda>u.
     bindS (processStructuresOfS env fuel cfg) (\<lambda>u.
     bindS (processCollectionsS env fuel cfg) (\<lambda>u.
     bindS (processSnippetsS env fuel cfg) (\<lambda>u. returnS cfg))))))"

subsection \<open>The exported entry point\<close>

text \<open>
  \<open>mergeConfiguration\<close> on a store \<open>h\<close> that holds the caller's configuration \<open>cfg\<close>: the
  loader works on \<^verbatim>\<open>JSON.parse(JSON.stringify(config))\<close>. The outcome is the store the
  call leaves, with the reference to the merged tree and the loader's fields (the warnings
  deduplicated) when the call returns.
\<close>

definition mergeConfigurationS ::
  "collaborators \<Rightarrow> nat \<Rightarrow> jsval \<Rightarrow> store \<Rightarrow> (fault + jsval \<times> loader) \<times> store" where
  "mergeConfigurationS env fuel cfg h =
     (case bindS (readS (\<lambda>h. stringify h cfg))
             (\<lambda>serialized. case serialized of
                 None \<Rightarrow> raiseS TypeError
               | Some content \<Rightarrow>
                   bindS (parseS content) (\<lambda>copy. loaderMergeConfigurationS env fuel copy))
             \<lparr>heap = h, loaderOf = newLoader\<rparr> of
        (Inl e, w) \<Rightarrow> (Inl e, heap w)
      | (Inr result, w) \<Rightarrow>
          (Inr (result,
                (loaderOf w)\<lparr>warnings := removeDuplicateWarnings (warnings (loaderOf w))\<rparr>),
           heap w))"

section \<open>Predicates and example inputs used in the statements\<close>

text \<open>A collation for the examples: comparison by code units.\<close>

fun codeUnitCompare :: "string \<Rightarrow> string \<Rightarrow> int" where
  "codeUnitCompare [] [] = 0"
| "codeUnitCompare [] (y # ys) = -1"
| "codeUnitCompare (x # xs) [] = 1"
| "codeUnitCompare (x # xs) (y # ys) =
     (if (of_char x :: nat) < of_char y then -1
      else if (of_char y :: nat) < of_char x then 1
      else codeUnitCompare xs ys)"

definition noNegation :: "string list \<Rightarrow> bool" where
  "noNegation pats = (\<forall>p \<in> set pats. \<not> startsWithBang p)"

text \<open>The example of the test suite: a pattern list with a negation, no file matching.\<close>

definition negationExampleEnv :: collaborators where
  "negationExampleEnv =
     \<lparr>findFilesMatchingGlobs = (\<lambda>globs. []),
      loadConfigFile = (\<lambda>filePath. Loaded (JObj [])),
      localeCompare = codeUnitCompare\<rparr>"

definition negationExampleConfig :: "(string \<times> json) list" where
  "negationExampleConfig =
     [(''collections_config_from_glob'',
       JArr [JStr ''/.cloudcannon/collections/*.yml'', JStr ''!/.cloudcannon/collections/draft.yml''])]"

text \<open>
  A relation between the loader's state before and after, reflexive and transitive, that every
  resolution of a reference key respects is respected by the whole walk.
\<close>

definition importRespects :: "collaborators \<Rightarrow> (loader \<Rightarrow> loader \<Rightarrow> bool) \<Rightarrow> bool" where
  "importRespects env P =
     (\<forall>cfg globKey targetKey isArray visited st r.
        importFromGlobKey env cfg globKey targetKey isArray visited st = Inr r \<longrightarrow> P st (snd (snd r)))"

text \<open>
  Nothing the loader has recorded is retracted: the diagnostics and the call trace only grow
  at the end, a path keeps the reference key that claimed it, and the path sets only grow.
\<close>

definition stateGrows :: "loader \<Rightarrow> loader \<Rightarrow> bool" where
  "stateGrows s s' =
     (prefix (cycles (warnings s)) (cycles (warnings s'))
      \<and> prefix (multipleGlobKeys (warnings s)) (multipleGlobKeys (warnings s'))
      \<and> prefix (arrayValues (warnings s)) (arrayValues (warnings s'))
      \<and> prefix (calls s) (calls s')
      \<and> (\<forall>p k. getProp (pathsToGlobKey s) p = Some k \<longrightarrow> getProp (pathsToGlobKey s') p = Some k)
      \<and> (\<forall>k. set (globKeyToPaths s k) \<subseteq> set (globKeyToPaths s' k)))"

text \<open>
  What a load contributes to the fragments of a resolution (nothing when it throws, yields
  \<^verbatim>\<open>undefined\<close> or \<^verbatim>\<open>null\<close>, or yields an array), and what it leaves in the state.
\<close>

definition contribution :: "loadResult \<Rightarrow> json option" where
  "contribution r =
     (case r of Loaded d \<Rightarrow> if Array_isArray d then None else Some d | _ \<Rightarrow> None)"

definition afterLoad :: "loadResult \<Rightarrow> string \<Rightarrow> loader \<Rightarrow> loader" where
  "afterLoad r p st =
     (case r of Loaded d \<Rightarrow> if Array_isArray d then pushArrayValue p st else st | _ \<Rightarrow> st)"

text \<open>
  The test suite's example of a file matched by two root-level reference keys, and the state
  after the first of them has claimed the file.
\<close>

definition sharedEnv :: collaborators where
  "sharedEnv =
     \<lparr>findFilesMatchingGlobs = (\<lambda>globs. [''/.cloudcannon/shared/config.yml'']),
      loadConfigFile = (\<lambda>filePath. Loaded (JObj [(''posts'', JObj [(''path'', JStr ''content/posts'')])])),
      localeCompare = codeUnitCompare\<rparr>"

definition sharedConfig :: "(string \<times> json) list" where
  "sharedConfig =
     [(''collections_config_from_glob'', JArr [JStr ''/.cloudcannon/shared/*.yml'']),
      (''_inputs_from_glob'', JArr [JStr ''/.cloudcannon/shared/*.yml''])]"

definition sharedState :: loader where
  "sharedState = claimPath ''/.cloudcannon/shared/config.yml'' Collections_config_from_glob newLoader"

text \<open>
  A structure whose values come from a file that itself carries an inputs reference
  resolving to the same file.
\<close>

definition chainedEnv :: collaborators where
  "chainedEnv =
     \<lparr>findFilesMatchingGlobs = (\<lambda>globs. [''p.yml'']),
      loadConfigFile = (\<lambda>filePath. Loaded (JObj [(''_inputs_from_glob'', JArr [JStr ''inputs/*.yml''])])),
      localeCompare = codeUnitCompare\<rparr>"

definition chainedConfig :: "(string \<times> json) list" where
  "chainedConfig =
     [(''_structures'', JObj [(''blocks'', JObj [(''values_from_glob'', JArr [JStr ''blocks/*.yml''])])])]"

text \<open>
  The test suite's example of a cycle: a structure's values come from \<open>hero.yml\<close>, whose
  own input has structures that reference the same pattern.
\<close>

definition heroInput :: json where
  "heroInput =
     JObj [(''type'', JStr ''array''),
           (''options'', JObj [(''structures'',
              JObj [(''values_from_glob'', JArr [JStr ''/.cloudcannon/structures/*.yml''])])])]"

definition heroEnv :: collaborators where
  "heroEnv =
     \<lparr>findFilesMatchingGlobs = (\<lambda>globs. [''/.cloudcannon/structures/hero.yml'']),
      loadConfigFile = (\<lambda>filePath.
         Loaded (JObj [(''label'', JStr ''Hero''), (''_inputs'', JObj [(''nested_blocks'', heroInput)])])),
      localeCompare = codeUnitCompare\<rparr>"

definition heroConfig :: "(string \<times> json) list" where
  "heroConfig =
     [(''_structures'',
       JObj [(''blocks'', JObj [(''values_from_glob'', JArr [JStr ''/.cloudcannon/structures/*.yml''])])])]"

text \<open>
  A structure value with three inputs: the first and the third reference the pattern being
  expanded, the second a pattern that resolves to another file.
\<close>

definition selfReference :: "string \<Rightarrow> json" where
  "selfReference pattern =
     JObj [(''options'', JObj [(''structures'', JObj [(''values_from_glob'', JArr [JStr pattern])])])]"

definition twoChainsEnv :: collaborators where
  "twoChainsEnv =
     \<lparr>findFilesMatchingGlobs =
        (\<lambda>globs. if globs = [JStr ''a.yml''] then [''a.yml'']
                  else if globs = [JStr ''c.yml''] then [''c.yml''] else []),
      loadConfigFile =
        (\<lambda>filePath.
           if filePath = ''a.yml'' then
             Loaded (JObj [(''_inputs'',
               JObj [(''first'', selfReference ''a.yml''),
                     (''second'', selfReference ''c.yml''),
                     (''third'', selfReference ''a.yml'')])])
           else if filePath = ''c.yml'' then Loaded (JObj [(''label'', JStr ''C'')])
           else LoadThrows),
      localeCompare = codeUnitCompare\<rparr>"

definition twoChainsConfig :: "(string \<times> json) list" where
  "twoChainsConfig =
     [(''_structures'', JObj [(''blocks'', JObj [(''values_from_glob'', JArr [JStr ''a.yml''])])])]"

text \<open>
  The test suite's example of an array-shaped file beside a valid one, and of a loader that
  always throws, here with one file matched by two root-level reference keys.
\<close>

definition arrayEnv :: collaborators where
  "arrayEnv =
     \<lparr>findFilesMatchingGlobs =
        (\<lambda>globs. [''/.cloudcannon/inputs/invalid.yml'', ''/.cloudcannon/inputs/valid.yml'']),
      loadConfigFile =
        (\<lambda>filePath.
           if filePath = ''/.cloudcannon/inputs/invalid.yml'' then
             Loaded (JArr [JObj [(''title'', JObj [(''type'', JStr ''text'')])]])
           else Loaded (JObj [(''description'', JObj [(''type'', JStr ''textarea'')])])),
      localeCompare = codeUnitCompare\<rparr>"

definition arrayConfig :: "(string \<times> json) list" where
  "arrayConfig = [(''_inputs_from_glob'', JArr [JStr ''/.cloudcannon/inputs/*.yml''])]"

definition brokenEnv :: collaborators where
  "brokenEnv =
     \<lparr>findFilesMatchingGlobs = (\<lambda>globs. [''/.cloudcannon/inputs/broken.yml'']),
      loadConfigFile = (\<lambda>filePath. LoadThrows),
      localeCompare = codeUnitCompare\<rparr>"

definition brokenConfig :: "(string \<times> json) list" where
  "brokenConfig =
     [(''collections_config_from_glob'', JArr [JStr ''/.cloudcannon/inputs/*.yml'']),
      (''_inputs_from_glob'', JArr [JStr ''/.cloudcannon/inputs/*.yml''])]"

text \<open>
  A structure with a values reference and a value of its own that carries an inputs
  reference; both resolve to the same file, which fails to load.
\<close>

definition brokenChainConfig :: "(string \<times> json) list" where
  "brokenChainConfig =
     [(''_structures'',
       JObj [(''blocks'',
         JObj [(''values_from_glob'', JArr [JStr ''/.cloudcannon/inputs/*.yml'']),
               (''values'', JArr [JObj [(''_inputs_from_glob'', JArr [JStr ''/.cloudcannon/inputs/*.yml''])]])])])]"

text \<open>Two files that define the same input, resolved by one object-shaped reference key.\<close>

definition overlapEnv :: collaborators where
  "overlapEnv =
     \<lparr>findFilesMatchingGlobs = (\<lambda>globs. [''b.yml'', ''a.yml'']),
      loadConfigFile =
        (\<lambda>filePath.
           if filePath = ''a.yml'' then Loaded (JObj [(''title'', JObj [(''type'', JStr ''text'')])])
           else Loaded (JObj [(''title'', JObj [(''type'', JStr ''textarea'')])])),
      localeCompare = codeUnitCompare\<rparr>"

definition overlapConfig :: "(string \<times> json) list" where
  "overlapConfig = [(''_inputs_from_glob'', JArr [JStr ''*.yml''])]"

text \<open>A collation is consistent when it is a total preorder.\<close>

definition consistentCollation :: "(string \<Rightarrow> string \<Rightarrow> int) \<Rightarrow> bool" where
  "consistentCollation lc =
     ((\<forall>x y. lc x y \<le> 0 \<or> lc y x \<le> 0)
      \<and> (\<forall>x y z. lc x y \<le> 0 \<longrightarrow> lc y z \<le> 0 \<longrightarrow> lc x z \<le> 0))"

text \<open>Whether a tree holds a reference key, at any depth.\<close>

definition globKeyNames :: "string list" where
  "globKeyNames = map keyName allGlobKeys"

fun hasGlobKey :: "json \<Rightarrow> bool"
and hasGlobKeyList :: "json list \<Rightarrow> bool"
and hasGlobKeyFields :: "(string \<times> json) list \<Rightarrow> bool" where
  "hasGlobKey (JArr xs) = hasGlobKeyList xs"
| "hasGlobKey (JObj kvs) = hasGlobKeyFields kvs"
| "hasGlobKey j = False"
| "hasGlobKeyList [] = False"
| "hasGlobKeyList (x # xs) = (hasGlobKey x \<or> hasGlobKeyList xs)"
| "hasGlobKeyFields [] = False"
| "hasGlobKeyFields ((k, v) # kvs) = (k \<in> set globKeyNames \<or> hasGlobKey v \<or> hasGlobKeyFields kvs)"

text \<open>A reference key written as a single pattern, not as a list of patterns.\<close>

definition stringReferenceConfig :: "(string \<times> json) list" where
  "stringReferenceConfig = [(''_inputs_from_glob'', JStr ''/.cloudcannon/inputs/*.yml'')]"

text \<open>
  The reference key \<open>_editables_from_glob\<close>, a list of patterns: the key is one of the
  \<open>GlobTypeKey\<close>s, and no step of \<open>mergeConfiguration\<close> reads it.
\<close>

definition editablesReferenceConfig :: "(string \<times> json) list" where
  "editablesReferenceConfig = [(''_editables_from_glob'', JArr [JStr ''/.cloudcannon/inputs/*.yml''])]"

text \<open>How deep a tree nests arrays and objects.\<close>

fun depth :: "json \<Rightarrow> nat"
and depthList :: "json list \<Rightarrow> nat"
and depthFields :: "(string \<times> json) list \<Rightarrow> nat" where
  "depth (JArr xs) = Suc (depthList xs)"
| "depth (JObj kvs) = Suc (depthFields kvs)"
| "depth j = 0"
| "depthList [] = 0"
| "depthList (x # xs) = max (depth x) (depthList xs)"
| "depthFields [] = 0"
| "depthFields ((k, v) # kvs) = max (depth v) (depthFields kvs)"

text \<open>
  A configuration with no reference key: inputs with a structure whose value has inputs of
  its own, a structure, a collection with a schema, and a snippet.
\<close>

definition plainConfig :: "(string \<times> json) list" where
  "plainConfig =
     [(''source'', JStr ''src''),
      (''_inputs'',
         JObj [(''title'', JObj [(''type'', JStr ''text'')]),
               (''blocks'',
                  JObj [(''type'', JStr ''array''),
                        (''options'',
                           JObj [(''structures'',
                              JObj [(''values'',
                                 JArr [JObj [(''label'', JStr ''Hero''),
                                             (''_inputs'',
                                                JObj [(''heading'', JObj [(''type'', JStr ''text'')])])]])])])])]),
      (''_structures'',
         JObj [(''gallery'', JObj [(''values'', JArr [JObj [(''label'', JStr ''Image'')]])])]),
      (''collections_config'',
         JObj [(''posts'',
            JObj [(''path'', JStr ''content/posts''),
                  (''schemas'', JObj [(''default'', JObj [(''path'', JStr ''schemas/post.md'')])])])]),
      (''_snippets'', JObj [(''note'', JObj [(''template'', JStr ''mdx_component'')])])]"

text \<open>
  \<^verbatim>\<open>[...(config.values || [])]\<close> raises when \<open>values\<close> is truthy and neither an array nor a
  string. \<open>iterableBase\<close> holds of a structure when that spread, should its
  \<open>values_from_glob\<close> be resolved, does not raise; \<open>valuesIterable\<close> holds of a tree when
  every structure in it is such.
\<close>

definition iterableBase :: "(string \<times> json) list \<Rightarrow> bool" where
  "iterableBase kvs =
     (case getProp kvs ''values_from_glob'' of
        Some (JArr globs) \<Rightarrow>
          (case arraySpread (orDefault (getProp kvs ''values'') (JArr [])) of
             Inl e \<Rightarrow> False
           | Inr xs \<Rightarrow> True)
      | _ \<Rightarrow> True)"

fun valuesIterable :: "json \<Rightarrow> bool"
and valuesIterableList :: "json list \<Rightarrow> bool"
and valuesIterableFields :: "(string \<times> json) list \<Rightarrow> bool" where
  "valuesIterable (JArr xs) = valuesIterableList xs"
| "valuesIterable (JObj kvs) = (iterableBase kvs \<and> valuesIterableFields kvs)"
| "valuesIterable j = True"
| "valuesIterableList [] = True"
| "valuesIterableList (x # xs) = (valuesIterable x \<and> valuesIterableList xs)"
| "valuesIterableFields [] = True"
| "valuesIterableFields ((k, v) # kvs) = (valuesIterable v \<and> valuesIterableFields kvs)"

text \<open>
  A structure whose \<open>values\<close> is a number, beside a \<open>values_from_glob\<close> list, and the test
  suite's configuration for a loader that fails.
\<close>

definition scalarValuesConfig :: "(string \<times> json) list" where
  "scalarValuesConfig =
     [(''_structures'',
       JObj [(''blocks'',
         JObj [(''values_from_glob'', JArr [JStr ''/.cloudcannon/inputs/*.yml'']),
               (''values'', JNum 5)])])]"

definition brokenInputsConfig :: "(string \<times> json) list" where
  "brokenInputsConfig = [(''_inputs_from_glob'', JArr [JStr ''/.cloudcannon/inputs/*.yml''])]"

text \<open>A store that holds one configuration, and the run of \<open>mergeConfigurationS\<close> on it.\<close>

definition storeOf :: "(string \<times> json) list \<Rightarrow> jsval \<times> store" where
  "storeOf cfg = parse (JObj cfg) []"

definition runOnStore ::
  "collaborators \<Rightarrow> nat \<Rightarrow> (string \<times> json) list \<Rightarrow> (fault + jsval \<times> loader) \<times> store" where
  "runOnStore env fuel cfg = (case storeOf cfg of (root, h) \<Rightarrow> mergeConfigurationS env fuel root h)"

text \<open>
  Whether the run on a store and the run on values agree: the same fault, or the same
  content of the merged tree and the same loader fields.
\<close>

definition agree :: "collaborators \<Rightarrow> nat \<Rightarrow> (string \<times> json) list \<Rightarrow> bool" where
  "agree env fuel cfg =
     (case (runOnStore env fuel cfg, mergeConfiguration env fuel cfg) of
        ((Inl e, h), Inl e') \<Rightarrow> e = e'
      | ((Inr (result, st), h), Inr r) \<Rightarrow>
          stringify h result = Some (JObj (config r))
          \<and> warnings st = warnings r \<and> pathsToGlobKey st = pathsToGlobKey r
          \<and> globPatterns st = globPatterns r \<and> calls st = calls r
          \<and> map (globKeyToPaths st) allGlobKeys = map (globKeyToPaths r) allGlobKeys
      | _ \<Rightarrow> False)"

text \<open>
  The cells from address \<open>F\<close> on form a part of the store that refers only to itself: a
  value is \<open>young\<close> when it is a primitive or a reference to such a cell. An action \<open>keeps\<close>
  the cells below \<open>F\<close> when from a store so divided it leaves a store so divided, with the
  cells below \<open>F\<close> as they were, and returns a value that satisfies \<open>Q\<close>.
\<close>

definition young :: "nat \<Rightarrow> jsval \<Rightarrow> bool" where
  "young F v = (case v of VRef a \<Rightarrow> F \<le> a | _ \<Rightarrow> True)"

definition cellVals :: "cell \<Rightarrow> jsval list" where
  "cellVals c = (case c of ObjCell kvs \<Rightarrow> map snd kvs | ArrCell vs \<Rightarrow> vs)"

definition youngCell :: "nat \<Rightarrow> cell \<Rightarrow> bool" where
  "youngCell F c = (\<forall>v \<in> set (cellVals c). young F v)"

definition separate :: "nat \<Rightarrow> store \<Rightarrow> bool" where
  "separate F h = (F \<le> length h \<and> (\<forall>a. F \<le> a \<and> a < length h \<longrightarrow> youngCell F (h ! a)))"

definition keeps :: "nat \<Rightarrow> ('a \<Rightarrow> bool) \<Rightarrow> 'a action \<Rightarrow> bool" where
  "keeps F Q m =
     (\<forall>w. separate F (heap w) \<longrightarrow>
        separate F (heap (snd (m w))) \<and> take F (heap (snd (m w))) = take F (heap w)
        \<and> (\<forall>x. fst (m w) = Inr x \<longrightarrow> Q x))"

text \<open>The test suite's check that the original configuration is not mutated.\<close>

definition mutationEnv :: collaborators where
  "mutationEnv =
     \<lparr>findFilesMatchingGlobs = (\<lambda>globs. [''/.cloudcannon/collections/posts.yml'']),
      loadConfigFile = (\<lambda>filePath. Loaded (JObj [(''posts'', JObj [(''path'', JStr ''content/posts'')])])),
      localeCompare = codeUnitCompare\<rparr>"

definition mutationConfig :: "(string \<times> json) list" where
  "mutationConfig =
     [(''collections_config'', JObj [(''existing'', JObj [(''path'', JStr ''content/existing'')])]),
      (''collections_config_from_glob'', JArr [JStr ''/.cloudcannon/collections/*.yml''])]"

section \<open>Facts about the walk as a whole\<close>

lemma andThen_Inr [simp]: "andThen (Inr x) f = f x"
  by (simp add: andThen_def)

lemma andThen_Inl [simp]: "andThen (Inl e) f = Inl e"
  by (simp add: andThen_def)

lemma andThen_eq_Inr: "andThen m f = Inr r \<longleftrightarrow> (\<exists>x. m = Inr x \<and> f x = Inr r)"
  by (cases m) simp_all

lemma importIfTruthy_respects:
  assumes "reflp P" "importRespects env P"
    "importIfTruthy env cfg globKey targetKey isArray visited st = Inr r"
  shows "P st (snd (snd r))"
  using assms by (cases r) (auto simp: importIfTruthy_def importRespects_def reflp_def split: if_splits)

lemma walker_respects:
  assumes rf: "reflp P" and tr: "transp P"
  shows "importRespects env P \<Longrightarrow> processInputsKey env fuel inputs visited st = Inr r1 \<Longrightarrow> P st (snd (snd r1))"
    and "importRespects env P \<Longrightarrow> processInputEntries env fuel entries visited st = Inr r2 \<Longrightarrow> P st (snd (snd r2))"
    and "importRespects env P \<Longrightarrow> processInputValue env fuel inputValue visited st = Inr r3 \<Longrightarrow> P st (snd (snd r3))"
    and "importRespects env P \<Longrightarrow> processStructureValues env fuel vals visited st = Inr r4 \<Longrightarrow> P st (snd (snd r4))"
    and "importRespects env P \<Longrightarrow> processStructureValue env fuel structureValue visited st = Inr r5 \<Longrightarrow> P st (snd (snd r5))"
proof (induction env fuel inputs visited st and env fuel entries visited st
         and env fuel inputValue visited st and env fuel vals visited st
         and env fuel structureValue visited st
       arbitrary: r1 and r2 and r3 and r4 and r5
       rule: processInputsKey_processInputEntries_processInputValue_processStructureValues_processStructureValue.induct)
  case (1 env fuel inputs visited st)
  then show ?case
    by (auto simp: andThen_eq_Inr reflpD[OF rf] split: json.splits)
next
  case (2 env fuel visited st)
  then show ?case using reflpD[OF rf] by auto
next
  case (3 env fuel k inputValue rest visited st)
  from "3.prems"(2) obtain x y where
    x: "processInputValue env fuel inputValue visited st = Inr x"
    and y: "processInputEntries env fuel rest (fst (snd x)) (snd (snd x)) = Inr y"
    and r: "snd (snd r2) = snd (snd y)"
    by (auto simp: andThen_eq_Inr split: prod.splits)
  have "P st (snd (snd x))" using "3.IH"(1) "3.prems"(1) x by blast
  moreover have "P (snd (snd x)) (snd (snd y))"
    using "3.IH"(2)[OF x _ _ "3.prems"(1) y] by (cases x) auto
  ultimately show ?case using r transpD[OF tr] by metis
next
  case (4 env fuel inputValue visited st)
  show ?case
  proof (cases "inputStructures inputValue")
    case None
    then show ?thesis using "4.prems" reflpD[OF rf] by auto
  next
    case (Some found)
    obtain iv opts structures where found: "found = (iv, opts, structures)" by (cases found) auto
    from "4.prems"(2) Some found obtain x where
      x: "importIfTruthy env structures Values_from_glob ''values'' True (Some (chainOf visited)) st = Inr x"
      and rest: "(case x of (structures1, visitedLocal1, st1) \<Rightarrow>
               (case arrayProp structures1 ''values'' of
                  None \<Rightarrow>
                    Inr (putStructures iv opts structures1,
                         restoreVisited visited visitedLocal1, st1)
                | Some vals \<Rightarrow>
                    andThen (processStructureValues env fuel vals visitedLocal1 st1)
                      (\<lambda>(vals1, visitedLocal2, st2).
                         Inr (putStructures iv opts (setProp ''values'' (JArr vals1) structures1),
                              restoreVisited visited visitedLocal2, st2)))) = Inr r3"
      by (auto simp: andThen_eq_Inr)
    obtain s1 vl1 st1 where xs: "x = (s1, vl1, st1)" by (cases x) auto
    have p1: "P st st1" using importIfTruthy_respects[OF rf "4.prems"(1) x] xs by simp
    show ?thesis
    proof (cases "arrayProp s1 ''values''")
      case None
      then show ?thesis using rest xs p1 by auto
    next
      case (Some vals)
      from rest xs Some obtain y where
        y: "processStructureValues env fuel vals vl1 st1 = Inr y" and r: "snd (snd r3) = snd (snd y)"
        by (auto simp: andThen_eq_Inr split: prod.splits)
      have "P st1 (snd (snd y))"
        using "4.IH"[OF \<open>inputStructures inputValue = Some found\<close> found[symmetric] refl x xs[symmetric] refl Some "4.prems"(1) y] .
      then show ?thesis using p1 r transpD[OF tr] by metis
    qed
  qed
next
  case (5 env fuel visited st)
  then show ?case using reflpD[OF rf] by auto
next
  case (6 env fuel structureValue rest visited st)
  from "6.prems"(2) obtain x y where
    x: "processStructureValue env fuel structureValue visited st = Inr x"
    and y: "processStructureValues env fuel rest (fst (snd x)) (snd (snd x)) = Inr y"
    and r: "snd (snd r4) = snd (snd y)"
    by (auto simp: andThen_eq_Inr split: prod.splits)
  have "P st (snd (snd x))" using "6.IH"(1) "6.prems"(1) x by blast
  moreover have "P (snd (snd x)) (snd (snd y))"
    using "6.IH"(2)[OF x _ _ "6.prems"(1) y] by (cases x) auto
  ultimately show ?case using r transpD[OF tr] by metis
next
  case (7 env structureValue visited st)
  then show ?case by simp
next
  case (8 env fuel structureValue visited st)
  show ?case
  proof (cases structureValue)
    case (JObj sv)
    from "8.prems"(2) JObj obtain x where
      x: "importIfTruthy env sv Inputs_from_glob ''_inputs'' False visited st = Inr x"
      and rest: "(case x of (sv1, visited1, st1) \<Rightarrow>
               (case truthyInputs sv1 of
                  None \<Rightarrow> Inr (JObj sv1, visited1, st1)
                | Some inputs \<Rightarrow>
                    andThen (processInputsKey env fuel inputs visited1 st1)
                      (\<lambda>(inputs1, visited2, st2).
                         Inr (JObj (setProp ''_inputs'' inputs1 sv1), visited2, st2)))) = Inr r5"
      by (auto simp: andThen_eq_Inr)
    obtain sv1 v1 st1 where xs: "x = (sv1, v1, st1)" by (cases x) auto
    have p1: "P st st1" using importIfTruthy_respects[OF rf "8.prems"(1) x] xs by simp
    show ?thesis
    proof (cases "truthyInputs sv1")
      case None
      then show ?thesis using rest xs p1 by auto
    next
      case (Some inputs)
      from rest xs Some obtain y where
        y: "processInputsKey env fuel inputs v1 st1 = Inr y" and r: "snd (snd r5) = snd (snd y)"
        by (auto simp: andThen_eq_Inr split: prod.splits)
      have "P st1 (snd (snd y))"
        using "8.IH"[OF JObj x xs[symmetric] refl Some "8.prems"(1) y] .
      then show ?thesis using p1 r transpD[OF tr] by metis
    qed
  qed (use "8.prems" reflpD[OF rf] in auto)
qed


lemma forEachValue_respects:
  assumes rf: "reflp Q" and tr: "transp Q"
    and f: "\<And>v s r. f v s = Inr r \<Longrightarrow> Q s (snd r)"
  shows "forEachValue f entries s = Inr r \<Longrightarrow> Q s (snd r)"
proof (induction entries arbitrary: s r)
  case Nil
  then show ?case using reflpD[OF rf] by auto
next
  case (Cons entry rest)
  obtain k v where entry: "entry = (k, v)" by (cases entry) auto
  from Cons.prems entry obtain x y where
    x: "f v s = Inr x" and y: "forEachValue f rest (snd x) = Inr y" and r: "snd r = snd y"
    by (auto simp: andThen_eq_Inr split: prod.splits)
  have "Q s (snd x)" using f x by blast
  moreover have "Q (snd x) (snd y)" using Cons.IH y by blast
  ultimately show ?case using r transpD[OF tr] by metis
qed

lemma processStructure_respects:
  assumes rf: "reflp P" and tr: "transp P"
    and imp: "importRespects env P"
    and run: "processStructure env fuel structure s = Inr r"
  shows "P (snd s) (snd (snd r))"
proof -
  obtain visited st where s: "s = (visited, st)" by (cases s) auto
  show ?thesis
  proof (cases "structure")
    case (JObj sv)
    from run s JObj obtain x where
      x: "importFromGlobKey env sv Values_from_glob ''values'' True (Some (chainOf visited)) st = Inr x"
      and rest: "(case x of (sv1, visitedLocal1, st1) \<Rightarrow>
                  (case arrayProp sv1 ''values'' of
                     None \<Rightarrow> Inr (JObj sv1, restoreVisited visited visitedLocal1, st1)
                   | Some vals \<Rightarrow>
                       andThen (processStructureValues env fuel vals visitedLocal1 st1)
                         (\<lambda>(vals1, visitedLocal2, st2).
                            Inr (JObj (setProp ''values'' (JArr vals1) sv1),
                                 restoreVisited visited visitedLocal2, st2)))) = Inr r"
      by (auto simp: processStructure_def andThen_eq_Inr)
    obtain sv1 vl1 st1 where xs: "x = (sv1, vl1, st1)" by (cases x) auto
    have p1: "P st st1" using imp x xs by (auto simp: importRespects_def)
    show ?thesis
    proof (cases "arrayProp sv1 ''values''")
      case None
      then show ?thesis using rest xs p1 s by auto
    next
      case (Some vals)
      from rest xs Some obtain y where
        y: "processStructureValues env fuel vals vl1 st1 = Inr y" and r: "snd (snd r) = snd (snd y)"
        by (auto simp: andThen_eq_Inr split: prod.splits)
      have "P st1 (snd (snd y))" using walker_respects(4)[OF rf tr imp y] .
      then show ?thesis using p1 r s transpD[OF tr] by (metis snd_conv)
    qed
  qed (use run s reflpD[OF rf] in \<open>auto simp: processStructure_def\<close>)
qed

lemma processStructuresKey_respects:
  assumes rf: "reflp P" and tr: "transp P"
    and imp: "importRespects env P"
    and run: "processStructuresKey env fuel structures visited st = Inr r"
  shows "P st (snd (snd r))"
proof (cases structures)
  case (JObj entries)
  from run JObj obtain y where
    y: "forEachValue (processStructure env fuel) entries (visited, st) = Inr y"
    and r: "snd (snd r) = snd (snd y)"
    by (auto simp: processStructuresKey_def andThen_eq_Inr split: prod.splits)
  have rfQ: "reflp (\<lambda>a b. P (snd a) (snd b))" using rf by (simp add: reflp_def)
  have trQ: "transp (\<lambda>a b. P (snd a) (snd b))" using tr unfolding transp_def by blast
  have "P (snd (visited, st)) (snd (snd y))"
    using forEachValue_respects[of "\<lambda>a b. P (snd a) (snd b)" "processStructure env fuel", OF rfQ trQ _ y]
      processStructure_respects[OF rf tr imp] by blast
  then show ?thesis using r by simp
qed (use run reflpD[OF rf] in \<open>auto simp: processStructuresKey_def\<close>)

lemma importKey_respects:
  assumes "importRespects env P" "importKey env globKey targetKey cfg st = Inr r"
  shows "P st (snd r)"
  using assms by (auto simp: importKey_def importRespects_def andThen_eq_Inr split: prod.splits)

lemma processInputsOf_respects:
  assumes rf: "reflp P" and tr: "transp P"
    and imp: "importRespects env P"
    and run: "processInputsOf env fuel cfg st = Inr r"
  shows "P st (snd r)"
proof (cases "getProp cfg ''_inputs''")
  case None
  then show ?thesis using run reflpD[OF rf] by (auto simp: processInputsOf_def)
next
  case (Some inputs)
  from run Some obtain y where y: "processInputsKey env fuel inputs None st = Inr y"
    and r: "snd r = snd (snd y)"
    by (auto simp: processInputsOf_def andThen_eq_Inr split: prod.splits)
  show ?thesis using walker_respects(1)[OF rf tr imp y] r by simp
qed

lemma processStructuresOf_respects:
  assumes rf: "reflp P" and tr: "transp P"
    and imp: "importRespects env P"
    and run: "processStructuresOf env fuel cfg st = Inr r"
  shows "P st (snd r)"
proof (cases "getProp cfg ''_structures''")
  case None
  then show ?thesis using run reflpD[OF rf] by (auto simp: processStructuresOf_def)
next
  case (Some structures)
  from run Some obtain y where y: "processStructuresKey env fuel structures None st = Inr y"
    and r: "snd r = snd (snd y)"
    by (auto simp: processStructuresOf_def andThen_eq_Inr split: prod.splits)
  show ?thesis using processStructuresKey_respects[OF rf tr imp y] r by simp
qed

lemma importInputsAndStructures_respects:
  assumes rf: "reflp P" and tr: "transp P"
    and imp: "importRespects env P"
    and run: "importInputsAndStructures env fuel cfg st = Inr r"
  shows "P st (snd r)"
proof -
  from run obtain x1 x2 x3 where
    x1: "importKey env Inputs_from_glob ''_inputs'' cfg st = Inr x1"
    and x2: "importKey env Structures_from_glob ''_structures'' (fst x1) (snd x1) = Inr x2"
    and x3: "processInputsOf env fuel (fst x2) (snd x2) = Inr x3"
    and x4: "processStructuresOf env fuel (fst x3) (snd x3) = Inr r"
    by (auto simp: importInputsAndStructures_def andThen_eq_Inr split: prod.splits)
  have "P st (snd x1)" using importKey_respects[OF imp x1] .
  moreover have "P (snd x1) (snd x2)" using importKey_respects[OF imp x2] .
  moreover have "P (snd x2) (snd x3)" using processInputsOf_respects[OF rf tr imp x3] .
  moreover have "P (snd x3) (snd r)" using processStructuresOf_respects[OF rf tr imp x4] .
  ultimately show ?thesis using transpD[OF tr] by blast
qed

lemma processSchema_respects:
  assumes rf: "reflp P" and tr: "transp P"
    and imp: "importRespects env P"
    and run: "processSchema env fuel schemaValue st = Inr r"
  shows "P st (snd r)"
proof (cases schemaValue)
  case (JObj sv)
  from run JObj obtain y where y: "importInputsAndStructures env fuel sv st = Inr y"
    and r: "snd r = snd y"
    by (auto simp: processSchema_def andThen_eq_Inr split: prod.splits)
  show ?thesis using importInputsAndStructures_respects[OF rf tr imp y] r by simp
qed (use run reflpD[OF rf] in \<open>auto simp: processSchema_def\<close>)

lemma processSnippet_respects:
  assumes rf: "reflp P" and tr: "transp P"
    and imp: "importRespects env P"
    and run: "processSnippet env fuel snippetConfig st = Inr r"
  shows "P st (snd r)"
proof (cases snippetConfig)
  case (JObj sc)
  from run JObj obtain y where y: "importInputsAndStructures env fuel sc st = Inr y"
    and r: "snd r = snd y"
    by (auto simp: processSnippet_def andThen_eq_Inr split: prod.splits)
  show ?thesis using importInputsAndStructures_respects[OF rf tr imp y] r by simp
qed (use run reflpD[OF rf] in \<open>auto simp: processSnippet_def\<close>)

lemma processCollection_respects:
  assumes rf: "reflp P" and tr: "transp P"
    and imp: "importRespects env P"
    and run: "processCollection env fuel collectionConfig st = Inr r"
  shows "P st (snd r)"
proof (cases collectionConfig)
  case (JObj c)
  define step1 where "step1 = (if getProp c ''schemas_from_glob'' \<noteq> None then
            importKey env Schemas_from_glob ''schemas'' c st else Inr (c, st))"
  from run JObj have "andThen step1
            (\<lambda>(c1, st1).
          andThen (importInputsAndStructures env fuel c1 st1)
            (\<lambda>(c2, st2).
               (case getProp c2 ''schemas'' of
                  Some (JObj schemas) \<Rightarrow>
                    andThen (forEachValue (processSchema env fuel) schemas st2)
                      (\<lambda>(schemas1, st3). Inr (JObj (setProp ''schemas'' (JObj schemas1) c2), st3))
                | _ \<Rightarrow> Inr (JObj c2, st2)))) = Inr r"
    unfolding step1_def processCollection_def by simp
  then obtain c1 st1 c2 st2 where
    x1: "step1 = Inr (c1, st1)"
    and x2: "importInputsAndStructures env fuel c1 st1 = Inr (c2, st2)"
    and rest: "(case getProp c2 ''schemas'' of
                  Some (JObj schemas) \<Rightarrow>
                    andThen (forEachValue (processSchema env fuel) schemas st2)
                      (\<lambda>(schemas1, st3). Inr (JObj (setProp ''schemas'' (JObj schemas1) c2), st3))
                | _ \<Rightarrow> Inr (JObj c2, st2)) = Inr r"
    by (auto simp: andThen_eq_Inr split: prod.splits)
  have p1: "P st st1"
    using x1 importKey_respects[OF imp] reflpD[OF rf] unfolding step1_def
    by (fastforce split: if_splits)
  have p2: "P st1 st2" using importInputsAndStructures_respects[OF rf tr imp x2] by simp
  have p3: "P st2 (snd r)"
  proof (cases "getProp c2 ''schemas''")
    case None
    then show ?thesis using rest reflpD[OF rf] by auto
  next
    case (Some sch)
    show ?thesis
    proof (cases sch)
      case (JObj schemas)
      from rest Some JObj obtain y where
        y: "forEachValue (processSchema env fuel) schemas st2 = Inr y" and r: "snd r = snd y"
        by (auto simp: andThen_eq_Inr split: prod.splits)
      have "P st2 (snd y)"
        using forEachValue_respects[of P "processSchema env fuel", OF rf tr _ y]
        processSchema_respects[OF rf tr imp] by blast
      then show ?thesis using r by simp
    qed (use rest Some reflpD[OF rf] in auto)
  qed
  show ?thesis using p1 p2 p3 transpD[OF tr] by blast
qed (use run reflpD[OF rf] in \<open>auto simp: processCollection_def\<close>)

lemma processCollections_respects:
  assumes rf: "reflp P" and tr: "transp P"
    and imp: "importRespects env P"
    and run: "processCollections env fuel cfg st = Inr r"
  shows "P st (snd r)"
proof (cases "getProp cfg ''collections_config''")
  case None
  then show ?thesis using run reflpD[OF rf] by (auto simp: processCollections_def)
next
  case (Some cc)
  show ?thesis
  proof (cases cc)
    case (JObj collections)
    from run Some JObj obtain y where
      y: "forEachValue (processCollection env fuel) collections st = Inr y" and r: "snd r = snd y"
      by (auto simp: processCollections_def andThen_eq_Inr split: prod.splits)
    have "P st (snd y)"
      using forEachValue_respects[of P "processCollection env fuel", OF rf tr _ y]
        processCollection_respects[OF rf tr imp] by blast
    then show ?thesis using r by simp
  qed (use run Some reflpD[OF rf] in \<open>auto simp: processCollections_def\<close>)
qed

lemma processSnippets_respects:
  assumes rf: "reflp P" and tr: "transp P"
    and imp: "importRespects env P"
    and run: "processSnippets env fuel cfg st = Inr r"
  shows "P st (snd r)"
proof (cases "getProp cfg ''_snippets''")
  case None
  then show ?thesis using run reflpD[OF rf] by (auto simp: processSnippets_def)
next
  case (Some sn)
  show ?thesis
  proof (cases sn)
    case (JObj snippets)
    from run Some JObj obtain x y where
      x: "importKey env Inputs_from_glob ''_inputs'' snippets st = Inr x"
      and y: "forEachValue (processSnippet env fuel) (fst x) (snd x) = Inr y" and r: "snd r = snd y"
      by (auto simp: processSnippets_def andThen_eq_Inr split: prod.splits)
    have "P st (snd x)" using importKey_respects[OF imp x] .
    moreover have "P (snd x) (snd y)"
      using forEachValue_respects[of P "processSnippet env fuel", OF rf tr _ y]
        processSnippet_respects[OF rf tr imp] by blast
    ultimately show ?thesis using r transpD[OF tr] by metis
  qed (use run Some reflpD[OF rf] in \<open>auto simp: processSnippets_def\<close>)
qed

lemma importRootKeys_respects:
  assumes rf: "reflp P" and tr: "transp P"
    and imp: "importRespects env P"
  shows "importRootKeys env keys cfg st = Inr r \<Longrightarrow> P st (snd r)"
proof (induction keys arbitrary: cfg st)
  case Nil
  then show ?case using reflpD[OF rf] by auto
next
  case (Cons key keys)
  obtain globKey targetKey where key: "key = (globKey, targetKey)" by (cases key) auto
  from Cons.prems key obtain x where
    x: "importKey env globKey targetKey cfg st = Inr x"
    and y: "importRootKeys env keys (fst x) (snd x) = Inr r"
    by (auto simp: andThen_eq_Inr split: prod.splits)
  have "P st (snd x)" using importKey_respects[OF imp x] .
  moreover have "P (snd x) (snd r)" using Cons.IH[OF y] .
  ultimately show ?case using transpD[OF tr] by blast
qed

lemma loaderMergeConfiguration_respects:
  assumes rf: "reflp P" and tr: "transp P"
    and imp: "importRespects env P"
    and run: "loaderMergeConfiguration env fuel cfg st = Inr r"
  shows "P (st\<lparr>warnings := emptyWarnings, globPatterns := []\<rparr>) (snd r)"
proof -
  from run obtain x1 x2 x3 x4 where
    x1: "importRootKeys env rootKeys cfg (st\<lparr>warnings := emptyWarnings, globPatterns := []\<rparr>) = Inr x1"
    and x2: "processInputsOf env fuel (fst x1) (snd x1) = Inr x2"
    and x3: "processStructuresOf env fuel (fst x2) (snd x2) = Inr x3"
    and x4: "processCollections env fuel (fst x3) (snd x3) = Inr x4"
    and x5: "processSnippets env fuel (fst x4) (snd x4) = Inr r"
    by (auto simp: loaderMergeConfiguration_def andThen_eq_Inr split: prod.splits)
  note importRootKeys_respects[OF rf tr imp x1]
    processInputsOf_respects[OF rf tr imp x2]
    processStructuresOf_respects[OF rf tr imp x3]
    processCollections_respects[OF rf tr imp x4]
    processSnippets_respects[OF rf tr imp x5]
  then show ?thesis using transpD[OF tr] by blast
qed



lemma loadStep_frame:
  assumes "loadStep env filePath globKey visited st = (item, visited1, st1)"
  shows "globPatterns st1 = globPatterns st"
  using assms
  by (auto simp: loadStep_def Let_def pushCycle_def pushMultipleGlobKeys_def pushArrayValue_def
        claimPath_def recordCall_def split: if_splits option.splits loadResult.splits)

lemma loadLoop_globPatterns:
  "loadLoop env files globKey visited st = (loaded, visited1, st1) \<Longrightarrow> globPatterns st1 = globPatterns st"
proof (induction files arbitrary: visited st loaded visited1 st1)
  case Nil
  then show ?case by simp
next
  case (Cons filePath rest)
  obtain item v2 st2 where step: "loadStep env filePath globKey visited st = (item, v2, st2)"
    by (cases "loadStep env filePath globKey visited st") auto
  obtain l3 v3 st3 where loop: "loadLoop env rest globKey v2 st2 = (l3, v3, st3)"
    by (cases "loadLoop env rest globKey v2 st2") auto
  from Cons.prems step loop have "st1 = st3" by simp
  then show ?case using Cons.IH[OF loop] loadStep_frame[OF step] by simp
qed

lemma addPattern_noNegation: "noNegation pats \<Longrightarrow> noNegation (addPattern pats pattern)"
  by (auto simp: noNegation_def addPattern_def setAdd_def split: json.splits)

lemma foldl_addPattern_noNegation: "noNegation pats \<Longrightarrow> noNegation (foldl addPattern pats globs)"
  by (induction globs arbitrary: pats) (simp_all add: addPattern_noNegation)

lemma importFromGlobKey_globPatterns:
  assumes "importFromGlobKey env cfg globKey targetKey isArray visited st = Inr (cfg1, visited1, st1)"
  shows "globPatterns st1 = globPatterns st
         \<or> (\<exists>globs. getProp cfg (keyName globKey) = Some (JArr globs)
               \<and> globPatterns st1 = foldl addPattern (globPatterns st) globs)"
proof (cases "getProp cfg (keyName globKey)")
  case None
  then show ?thesis using assms by (simp add: importFromGlobKey_def)
next
  case (Some g)
  show ?thesis
  proof (cases g)
    case (JArr globs)
    obtain l v2 st2 where lf: "loadFilesFromGlobs env globs globKey visited
        (st\<lparr>globPatterns := foldl addPattern (globPatterns st) globs\<rparr>) = (l, v2, st2)"
      by (cases "loadFilesFromGlobs env globs globKey visited
        (st\<lparr>globPatterns := foldl addPattern (globPatterns st) globs\<rparr>)") auto
    then have "globPatterns st2 = foldl addPattern (globPatterns st) globs"
      using loadLoop_globPatterns[of env _ globKey visited _ l v2 st2]
      by (simp add: loadFilesFromGlobs_def recordCall_def)
    moreover have "st1 = st2"
      using assms Some JArr lf
      by (auto simp: importFromGlobKey_def split: if_splits sum.splits)
    ultimately show ?thesis using Some JArr by simp
  qed (use assms Some in \<open>simp_all add: importFromGlobKey_def\<close>)
qed

lemma importRespects_noNegation:
  "importRespects env (\<lambda>s s'. noNegation (globPatterns s) \<longrightarrow> noNegation (globPatterns s'))"
  unfolding importRespects_def
proof (intro allI impI)
  fix cfg globKey targetKey isArray visited st r
  assume run: "importFromGlobKey env cfg globKey targetKey isArray visited st = Inr r"
    and inv: "noNegation (globPatterns st)"
  obtain c v s where r: "r = (c, v, s)" by (cases r) auto
  from importFromGlobKey_globPatterns[OF run[unfolded r]] inv
  show "noNegation (globPatterns (snd (snd r)))"
    using r foldl_addPattern_noNegation by auto
qed

lemma loadStep_calls:
  assumes "loadStep env filePath globKey visited st = (item, visited1, st1)"
  shows "calls st1 = calls st \<or> calls st1 = calls st @ [LoadFile filePath]"
  using assms
  by (auto simp: loadStep_def Let_def pushCycle_def pushMultipleGlobKeys_def pushArrayValue_def
        claimPath_def recordCall_def split: if_splits option.splits loadResult.splits)

lemma loadLoop_calls:
  "loadLoop env files globKey visited st = (loaded, visited1, st1) \<Longrightarrow>
     \<exists>ls. calls st1 = calls st @ map LoadFile ls \<and> set ls \<subseteq> set files"
proof (induction files arbitrary: visited st loaded visited1 st1)
  case Nil
  then show ?case by simp
next
  case (Cons filePath rest)
  obtain item v2 st2 where step: "loadStep env filePath globKey visited st = (item, v2, st2)"
    by (cases "loadStep env filePath globKey visited st") auto
  obtain l3 v3 st3 where loop: "loadLoop env rest globKey v2 st2 = (l3, v3, st3)"
    by (cases "loadLoop env rest globKey v2 st2") auto
  from Cons.prems step loop have st1: "st1 = st3" by simp
  from Cons.IH[OF loop] obtain ls where ls: "calls st3 = calls st2 @ map LoadFile ls" "set ls \<subseteq> set rest"
    by blast
  from loadStep_calls[OF step] show ?case
  proof
    assume "calls st2 = calls st"
    then show ?thesis using ls st1 by (intro exI[of _ ls]) auto
  next
    assume "calls st2 = calls st @ [LoadFile filePath]"
    then show ?thesis using ls st1 by (intro exI[of _ "filePath # ls"]) auto
  qed
qed

lemma set_insertSorted [simp]: "set (insertSorted lc x xs) = insert x (set xs)"
  by (induction xs) auto

lemma set_sortPaths [simp]: "set (sortPaths lc xs) = set xs"
  by (induction xs) (simp_all add: sortPaths_def)

subsection \<open>One resolution\<close>

lemma stateGrows_refl [simp]: "stateGrows s s"
  by (simp add: stateGrows_def)

lemma stateGrows_trans: "stateGrows a b \<Longrightarrow> stateGrows b c \<Longrightarrow> stateGrows a c"
  unfolding stateGrows_def by (meson prefix_order.order_trans subset_trans)

lemma reflp_stateGrows: "reflp stateGrows"
  by (simp add: reflp_def)

lemma transp_stateGrows: "transp stateGrows"
  unfolding transp_def using stateGrows_trans by blast

lemma getProp_setProp: "getProp (setProp k v kvs) k' = (if k' = k then Some v else getProp kvs k')"
  by (induction kvs) (auto simp: getProp_def)

lemma getProp_deleteProp: "getProp (deleteProp k kvs) k' = (if k' = k then None else getProp kvs k')"
  by (induction kvs) (auto simp: getProp_def deleteProp_def)

lemma otherOwner_None_iff:
  "otherOwner st p k = None \<longleftrightarrow> (getProp (pathsToGlobKey st) p = None \<or> getProp (pathsToGlobKey st) p = Some k)"
  by (auto simp: otherOwner_def split: option.splits)

lemma otherOwner_Some_iff:
  "otherOwner st p k = Some k1 \<longleftrightarrow> (getProp (pathsToGlobKey st) p = Some k1 \<and> k1 \<noteq> k)"
  by (auto simp: otherOwner_def split: option.splits)

text \<open>The three outcomes of one iteration.\<close>

lemma loadStep_cycle:
  "visitedHas visited p \<Longrightarrow>
     loadStep env p k visited st = (None, visited, pushCycle p (chainOf visited) st)"
  by (simp add: loadStep_def)

lemma loadStep_conflict:
  "\<not> visitedHas visited p \<Longrightarrow> otherOwner st p k = Some k1 \<Longrightarrow>
     loadStep env p k visited st = (None, visited, pushMultipleGlobKeys p k1 k st)"
  by (simp add: loadStep_def)

lemma loadStep_claim:
  "\<not> visitedHas visited p \<Longrightarrow> otherOwner st p k = None \<Longrightarrow>
     loadStep env p k visited st =
       (map_option (\<lambda>d. (d, p)) (contribution (loadConfigFile env p)),
        visitedAdd visited p,
        afterLoad (loadConfigFile env p) p (recordCall (LoadFile p) (claimPath p k st)))"
  by (simp add: loadStep_def contribution_def afterLoad_def Let_def split: loadResult.splits)

lemma stateGrows_pushCycle: "stateGrows st (pushCycle p c st)"
  by (simp add: stateGrows_def pushCycle_def)

lemma stateGrows_pushMultipleGlobKeys: "stateGrows st (pushMultipleGlobKeys p a b st)"
  by (simp add: stateGrows_def pushMultipleGlobKeys_def)

lemma stateGrows_pushArrayValue: "stateGrows st (pushArrayValue p st)"
  by (simp add: stateGrows_def pushArrayValue_def)

lemma stateGrows_recordCall: "stateGrows st (recordCall c st)"
  by (simp add: stateGrows_def recordCall_def)

lemma stateGrows_claimPath: "otherOwner st p k = None \<Longrightarrow> stateGrows st (claimPath p k st)"
  by (auto simp: stateGrows_def claimPath_def getProp_setProp otherOwner_None_iff setAdd_def)

lemma stateGrows_afterLoad: "stateGrows st (afterLoad r p st)"
  by (simp add: afterLoad_def stateGrows_pushArrayValue split: loadResult.splits)

lemma loadStep_grows:
  assumes "loadStep env p k visited st = (item, visited1, st1)"
  shows "stateGrows st st1"
proof (cases "visitedHas visited p")
  case True
  then show ?thesis using assms by (auto simp: loadStep_cycle stateGrows_pushCycle)
next
  case False
  show ?thesis
  proof (cases "otherOwner st p k")
    case None
    have "stateGrows st (claimPath p k st)" using None by (rule stateGrows_claimPath)
    moreover have "stateGrows (claimPath p k st) (recordCall (LoadFile p) (claimPath p k st))"
      by (rule stateGrows_recordCall)
    moreover have "stateGrows (recordCall (LoadFile p) (claimPath p k st))
        (afterLoad (loadConfigFile env p) p (recordCall (LoadFile p) (claimPath p k st)))"
      by (rule stateGrows_afterLoad)
    ultimately have "stateGrows st
        (afterLoad (loadConfigFile env p) p (recordCall (LoadFile p) (claimPath p k st)))"
      by (blast intro: stateGrows_trans)
    then show ?thesis using assms False None by (simp add: loadStep_claim)
  next
    case (Some k1)
    then show ?thesis using assms False
      by (auto simp: loadStep_conflict stateGrows_pushMultipleGlobKeys)
  qed
qed

lemma loadLoop_Cons_elim:
  assumes "loadLoop env (p # rest) k visited st = (loaded, visited2, st2)"
  obtains item visited1 st1 loaded1 where
    "loadStep env p k visited st = (item, visited1, st1)"
    "loadLoop env rest k visited1 st1 = (loaded1, visited2, st2)"
    "loaded = (case item of None \<Rightarrow> loaded1 | Some x \<Rightarrow> x # loaded1)"
  using assms by (auto split: prod.splits)

lemma loadLoop_grows:
  "loadLoop env files k visited st = (loaded, visited1, st1) \<Longrightarrow> stateGrows st st1"
proof (induction files arbitrary: visited st loaded visited1 st1)
  case Nil
  then show ?case by simp
next
  case (Cons p rest)
  from Cons.prems show ?case
  proof (rule loadLoop_Cons_elim)
    fix item v1 s1 l1
    assume "loadStep env p k visited st = (item, v1, s1)"
      and "loadLoop env rest k v1 s1 = (l1, visited1, st1)"
    then show ?thesis using loadStep_grows Cons.IH stateGrows_trans by blast
  qed
qed

lemma loadLoop_append:
  "loadLoop env (xs @ ys) k visited st =
     (case loadLoop env xs k visited st of
        (l1, v1, s1) \<Rightarrow>
          (case loadLoop env ys k v1 s1 of (l2, v2, s2) \<Rightarrow> (l1 @ l2, v2, s2)))"
  by (induction xs arbitrary: visited st) (auto split: prod.splits option.splits)

lemma visitedHas_visitedAdd: "visitedHas (visitedAdd visited q) p = (visitedHas visited p \<or> (visited \<noteq> None \<and> p = q))"
  by (auto simp: visitedHas_def visitedAdd_def setAdd_def split: option.splits)

lemma chainOf_visitedAdd_prefix: "prefix (chainOf visited) (chainOf (visitedAdd visited q))"
  by (auto simp: chainOf_def visitedAdd_def setAdd_def split: option.splits)

lemma visitedAdd_None_iff [simp]: "visitedAdd visited q = None \<longleftrightarrow> visited = None"
  by (simp add: visitedAdd_def split: option.splits)

lemma loadStep_visited:
  assumes "loadStep env q k visited st = (item, visited1, st1)"
  shows "prefix (chainOf visited) (chainOf visited1) \<and> (visited1 = None \<longleftrightarrow> visited = None)
         \<and> (\<forall>p. p \<noteq> q \<longrightarrow> visitedHas visited1 p = visitedHas visited p)"
proof (cases "visitedHas visited q")
  case True
  then show ?thesis using assms by (auto simp: loadStep_cycle)
next
  case False
  show ?thesis
  proof (cases "otherOwner st q k")
    case None
    then show ?thesis using assms False
      by (auto simp: loadStep_claim chainOf_visitedAdd_prefix visitedHas_visitedAdd)
  next
    case (Some k1)
    then show ?thesis using assms False by (auto simp: loadStep_conflict)
  qed
qed

lemma loadStep_owner_other:
  assumes "loadStep env q k visited st = (item, visited1, st1)" "p \<noteq> q"
  shows "getProp (pathsToGlobKey st1) p = getProp (pathsToGlobKey st) p"
proof (cases "visitedHas visited q")
  case True
  then show ?thesis using assms by (auto simp: loadStep_cycle pushCycle_def)
next
  case False
  show ?thesis
  proof (cases "otherOwner st q k")
    case None
    then show ?thesis using assms False
      by (auto simp: loadStep_claim afterLoad_def pushArrayValue_def recordCall_def claimPath_def
            getProp_setProp split: loadResult.splits)
  next
    case (Some k1)
    then show ?thesis using assms False by (auto simp: loadStep_conflict pushMultipleGlobKeys_def)
  qed
qed

lemma loadStep_item:
  assumes "loadStep env q k visited st = (Some (d, p), visited1, st1)"
  shows "p = q \<and> \<not> visitedHas visited q \<and> otherOwner st q k = None
         \<and> contribution (loadConfigFile env q) = Some d"
proof (cases "visitedHas visited q")
  case True
  then show ?thesis using assms by (auto simp: loadStep_cycle)
next
  case False
  show ?thesis
  proof (cases "otherOwner st q k")
    case None
    then show ?thesis using assms False by (auto simp: loadStep_claim)
  next
    case (Some k1)
    then show ?thesis using assms False by (auto simp: loadStep_conflict)
  qed
qed

text \<open>A path that is not among the files of a loop is not touched by it.\<close>

lemma loadLoop_untouched:
  "loadLoop env files k visited st = (loaded, visited1, st1) \<Longrightarrow> p \<notin> set files \<Longrightarrow>
     visitedHas visited1 p = visitedHas visited p
     \<and> getProp (pathsToGlobKey st1) p = getProp (pathsToGlobKey st) p
     \<and> p \<notin> snd ` set loaded"
proof (induction files arbitrary: visited st loaded visited1 st1)
  case Nil
  then show ?case by simp
next
  case (Cons q rest)
  from Cons.prems(1) show ?case
  proof (rule loadLoop_Cons_elim)
    fix item v1 s1 l1
    assume step: "loadStep env q k visited st = (item, v1, s1)"
      and loop: "loadLoop env rest k v1 s1 = (l1, visited1, st1)"
      and l: "loaded = (case item of None \<Rightarrow> l1 | Some x \<Rightarrow> x # l1)"
    have pq: "p \<noteq> q" and pr: "p \<notin> set rest" using Cons.prems(2) by auto
    have ih: "visitedHas visited1 p = visitedHas v1 p
       \<and> getProp (pathsToGlobKey st1) p = getProp (pathsToGlobKey s1) p \<and> p \<notin> snd ` set l1"
      using Cons.IH[OF loop pr] .
    have "p \<notin> snd ` set loaded"
    proof (cases item)
      case None
      then show ?thesis using l ih by simp
    next
      case (Some x)
      obtain d p' where x: "x = (d, p')" by (cases x) auto
      have "p' = q" using loadStep_item[of env q k visited st d p' v1 s1] step Some x by simp
      then show ?thesis using l ih Some x pq by auto
    qed
    then show ?thesis
      using ih loadStep_visited[OF step] loadStep_owner_other[OF step pq] pq by auto
  qed
qed

lemma loadLoop_visited:
  "loadLoop env files k visited st = (loaded, visited1, st1) \<Longrightarrow>
     prefix (chainOf visited) (chainOf visited1) \<and> (visited1 = None \<longleftrightarrow> visited = None)"
proof (induction files arbitrary: visited st loaded visited1 st1)
  case Nil
  then show ?case by simp
next
  case (Cons q rest)
  from Cons.prems(1) show ?case
  proof (rule loadLoop_Cons_elim)
    fix item v1 s1 l1
    assume step: "loadStep env q k visited st = (item, v1, s1)"
      and loop: "loadLoop env rest k v1 s1 = (l1, visited1, st1)"
    show ?thesis
      using loadStep_visited[OF step] Cons.IH[OF loop] by (meson prefix_order.order_trans)
  qed
qed

lemma first_occurrence:
  assumes "p \<in> set files"
  obtains pre post where "files = pre @ p # post" "p \<notin> set pre"
  using assms by (meson split_list_first)

subsection \<open>Deduplication\<close>

lemma pushUnique_keys:
  assumes same: "\<And>a b. same a b = (key a = key b)"
  shows "distinct (map key acc) \<Longrightarrow>
     distinct (map key (pushUnique same ws acc))
     \<and> key ` set (pushUnique same ws acc) = key ` set acc \<union> key ` set ws"
proof (induction ws arbitrary: acc)
  case Nil
  then show ?case by simp
next
  case (Cons w ws)
  show ?case
  proof (cases "list_ex (\<lambda>r. same r w) acc")
    case True
    then obtain r where "r \<in> set acc" "key r = key w" by (auto simp: list_ex_iff same)
    then have "key w \<in> key ` set acc" by (metis imageI)
    then show ?thesis using Cons.IH[OF Cons.prems] True by auto
  next
    case False
    then have "key w \<notin> key ` set acc" by (auto simp: list_ex_iff same)
    then have "distinct (map key (acc @ [w]))" using Cons.prems by auto
    from Cons.IH[OF this] show ?thesis using False by auto
  qed
qed

lemma distinct_keys_once:
  "distinct (map key xs) \<Longrightarrow> c \<in> key ` set xs \<Longrightarrow> length (filter (\<lambda>w. key w = c) xs) = 1"
proof (induction xs)
  case Nil
  then show ?case by simp
next
  case (Cons x xs)
  show ?case
  proof (cases "key x = c")
    case True
    then have "c \<notin> key ` set xs" using Cons.prems(1) by auto
    then have "filter (\<lambda>w. key w = c) xs = []" by (auto simp: filter_empty_conv)
    then show ?thesis using True by simp
  next
    case False
    then show ?thesis using Cons by auto
  qed
qed

lemma pushUnique_once:
  assumes same: "\<And>a b. same a b = (key a = key b)" and mem: "x \<in> set ws"
  shows "length (filter (\<lambda>w. same w x) (pushUnique same ws [])) = 1"
proof -
  have d: "distinct (map key (pushUnique same ws []))"
    and k: "key ` set (pushUnique same ws []) = key ` set ws"
    using pushUnique_keys[of same key "[]" ws, OF same] by auto
  have "key x \<in> key ` set (pushUnique same ws [])" using k mem by auto
  from distinct_keys_once[OF d this] show ?thesis by (simp add: same)
qed

lemma sameMultipleGlobKeys_eq: "sameMultipleGlobKeys a b = (id a = id b)"
  by (cases a; cases b) (auto simp: sameMultipleGlobKeys_def)

lemma sameArrayValue_eq: "sameArrayValue a b = (id a = id b)"
  by (cases a; cases b) (auto simp: sameArrayValue_def)

lemma sameCycle_key:
  "sameCycle a b =
     ((cyclePath a, joinWith arrowSeparator (cycleChain a))
        = (cyclePath b, joinWith arrowSeparator (cycleChain b)))"
  by (auto simp: sameCycle_def)

lemma multipleGlobKeys_once:
  assumes "x \<in> set (multipleGlobKeys ws)"
  shows "count_list (multipleGlobKeys (removeDuplicateWarnings ws)) x = 1"
proof -
  have "length (filter (\<lambda>w. sameMultipleGlobKeys w x)
          (pushUnique sameMultipleGlobKeys (multipleGlobKeys ws) [])) = 1"
    using pushUnique_once[of sameMultipleGlobKeys id, OF sameMultipleGlobKeys_eq assms] .
  moreover have "(\<lambda>w. sameMultipleGlobKeys w x) = ((=) x)"
    by (auto simp: sameMultipleGlobKeys_eq)
  ultimately show ?thesis
    by (simp add: removeDuplicateWarnings_def count_list_eq_length_filter)
qed

lemma arrayValues_once:
  assumes "x \<in> set (arrayValues ws)"
  shows "count_list (arrayValues (removeDuplicateWarnings ws)) x = 1"
proof -
  have "length (filter (\<lambda>w. sameArrayValue w x)
          (pushUnique sameArrayValue (arrayValues ws) [])) = 1"
    using pushUnique_once[of sameArrayValue id, OF sameArrayValue_eq assms] .
  moreover have "(\<lambda>w. sameArrayValue w x) = ((=) x)"
    by (auto simp: sameArrayValue_eq)
  ultimately show ?thesis
    by (simp add: removeDuplicateWarnings_def count_list_eq_length_filter)
qed

lemma cycles_once:
  assumes "x \<in> set (cycles ws)"
  shows "length (filter (\<lambda>w. sameCycle w x) (cycles (removeDuplicateWarnings ws))) = 1"
  using pushUnique_once[of sameCycle
      "\<lambda>w. (cyclePath w, joinWith arrowSeparator (cycleChain w))", OF sameCycle_key assms]
  by (simp add: removeDuplicateWarnings_def)

lemma prefix_mem: "prefix xs ys \<Longrightarrow> x \<in> set xs \<Longrightarrow> x \<in> set ys"
  by (auto simp: prefix_def)

subsection \<open>A resolution, at the first occurrence of a path\<close>

lemma loadLoop_at_first:
  assumes run: "loadLoop env files k visited st = (loaded, visited2, st2)"
    and mem: "p \<in> set files"
  obtains pre post l0 v0 s0 item v1 s1 l1 where
    "files = pre @ p # post" "p \<notin> set pre"
    "loadLoop env pre k visited st = (l0, v0, s0)"
    "loadStep env p k v0 s0 = (item, v1, s1)"
    "loadLoop env post k v1 s1 = (l1, visited2, st2)"
    "visitedHas v0 p = visitedHas visited p"
    "getProp (pathsToGlobKey s0) p = getProp (pathsToGlobKey st) p"
    "prefix (chainOf visited) (chainOf v0)"
    "stateGrows st s0" "stateGrows s1 st2"
proof -
  from mem obtain pre post where files: "files = pre @ p # post" and pre: "p \<notin> set pre"
    by (rule first_occurrence)
  obtain l0 v0 s0 where a: "loadLoop env pre k visited st = (l0, v0, s0)"
    by (cases "loadLoop env pre k visited st") auto
  obtain item v1 s1 where b: "loadStep env p k v0 s0 = (item, v1, s1)"
    by (cases "loadStep env p k v0 s0") auto
  obtain l1 v2 s2 where c: "loadLoop env post k v1 s1 = (l1, v2, s2)"
    by (cases "loadLoop env post k v1 s1") auto
  have "loadLoop env files k visited st = (l0 @ (case item of None \<Rightarrow> l1 | Some x \<Rightarrow> x # l1), v2, s2)"
    using a b c by (simp add: files loadLoop_append)
  then have e: "v2 = visited2" "s2 = st2" using run by auto
  show ?thesis
    using that[OF files pre a b c[unfolded e]] loadLoop_untouched[OF a pre]
      loadLoop_visited[OF a] loadLoop_grows[OF a] loadLoop_grows[OF c[unfolded e]]
    by blast
qed

text \<open>Every fragment of a resolution was loaded in it, under its reference key.\<close>

lemma visitedHas_mono: "prefix (chainOf v) (chainOf v') \<Longrightarrow> (v' = None \<longleftrightarrow> v = None) \<Longrightarrow> visitedHas v p \<Longrightarrow> visitedHas v' p"
  by (auto simp: visitedHas_def chainOf_def prefix_def split: option.splits)

lemma loadStep_claimed:
  assumes "loadStep env q k visited st = (item, visited1, st1)"
    "\<not> visitedHas visited q" "otherOwner st q k = None"
  shows "getProp (pathsToGlobKey st1) q = Some k" "q \<in> set (globKeyToPaths st1 k)"
    "calls st1 = calls st @ [LoadFile q]"
    "item = map_option (\<lambda>d. (d, q)) (contribution (loadConfigFile env q))"
    "loadConfigFile env q = Loaded (JArr xs) \<Longrightarrow> ArrayValue q \<in> set (arrayValues (warnings st1))"
    "contribution (loadConfigFile env q) = None \<Longrightarrow> cycles (warnings st1) = cycles (warnings st)
       \<and> multipleGlobKeys (warnings st1) = multipleGlobKeys (warnings st)"
  using assms
  by (auto simp: loadStep_claim afterLoad_def pushArrayValue_def recordCall_def claimPath_def
        getProp_setProp setAdd_def split: loadResult.splits)

lemma loadLoop_fragments:
  "loadLoop env files k visited st = (loaded, visited1, st1) \<Longrightarrow> (d, p) \<in> set loaded \<Longrightarrow>
     p \<in> set files \<and> \<not> visitedHas visited p \<and> getProp (pathsToGlobKey st1) p = Some k
     \<and> contribution (loadConfigFile env p) = Some d"
proof (induction files arbitrary: visited st loaded visited1 st1)
  case Nil
  then show ?case by simp
next
  case (Cons q rest)
  from Cons.prems(1) show ?case
  proof (rule loadLoop_Cons_elim)
    fix item v1 s1 l1
    assume step: "loadStep env q k visited st = (item, v1, s1)"
      and loop: "loadLoop env rest k v1 s1 = (l1, visited1, st1)"
      and l: "loaded = (case item of None \<Rightarrow> l1 | Some x \<Rightarrow> x # l1)"
    note vis = loadStep_visited[OF step]
    show ?thesis
    proof (cases "(d, p) \<in> set l1")
      case True
      from Cons.IH[OF loop True] vis show ?thesis
        using visitedHas_mono[of visited v1 p] by auto
    next
      case False
      then have item: "item = Some (d, p)" using l Cons.prems(2) by (cases item) auto
      from loadStep_item[OF step[unfolded item]]
      have pq: "p = q" and nv: "\<not> visitedHas visited q" and oo: "otherOwner st q k = None"
        and c: "contribution (loadConfigFile env q) = Some d" by auto
      have "getProp (pathsToGlobKey s1) q = Some k" using loadStep_claimed(1)[OF step nv oo] .
      then have "getProp (pathsToGlobKey st1) q = Some k"
        using loadLoop_grows[OF loop] by (simp add: stateGrows_def)
      then show ?thesis using pq nv c by simp
    qed
  qed
qed

lemma loadLoop_new_calls:
  "loadLoop env files k visited st = (loaded, visited1, st1) \<Longrightarrow>
     \<exists>ls. calls st1 = calls st @ map LoadFile ls
       \<and> (\<forall>l \<in> set ls. l \<in> set files \<and> \<not> visitedHas visited l
                         \<and> getProp (pathsToGlobKey st1) l = Some k)"
proof (induction files arbitrary: visited st loaded visited1 st1)
  case Nil
  then show ?case by simp
next
  case (Cons q rest)
  from Cons.prems(1) show ?case
  proof (rule loadLoop_Cons_elim)
    fix item v1 s1 l1
    assume step: "loadStep env q k visited st = (item, v1, s1)"
      and loop: "loadLoop env rest k v1 s1 = (l1, visited1, st1)"
    note vis = loadStep_visited[OF step]
    from Cons.IH[OF loop] obtain ls where
      ls: "calls st1 = calls s1 @ map LoadFile ls"
      and each: "\<forall>l \<in> set ls. l \<in> set rest \<and> \<not> visitedHas v1 l
                         \<and> getProp (pathsToGlobKey st1) l = Some k"
      by blast
    have each': "\<forall>l \<in> set ls. l \<in> set (q # rest) \<and> \<not> visitedHas visited l
                         \<and> getProp (pathsToGlobKey st1) l = Some k"
      using each vis visitedHas_mono[of visited v1] by auto
    show ?thesis
    proof (cases "\<not> visitedHas visited q \<and> otherOwner st q k = None")
      case True
      then have c: "calls s1 = calls st @ [LoadFile q]"
        and o: "getProp (pathsToGlobKey s1) q = Some k"
        using loadStep_claimed[OF step] by auto
      have "getProp (pathsToGlobKey st1) q = Some k"
        using o loadLoop_grows[OF loop] by (simp add: stateGrows_def)
      then show ?thesis using ls c each' True
        by (intro exI[of _ "q # ls"]) auto
    next
      case False
      then have "calls s1 = calls st"
        using step
        by (cases "visitedHas visited q"; cases "otherOwner st q k")
           (auto simp: loadStep_cycle loadStep_conflict pushCycle_def pushMultipleGlobKeys_def)
      then show ?thesis using ls each' by (intro exI[of _ ls]) auto
    qed
  qed
qed

lemma drop_calls: "calls st1 = calls st @ xs \<Longrightarrow> drop (length (calls st)) (calls st1) = xs"
  by simp

text \<open>The facts about one resolution that the claims share.\<close>

lemma loadFiles_unfold:
  "loadFilesFromGlobs env globs k visited st = (loaded, visited1, st1) \<Longrightarrow>
     loadLoop env (sortPaths (localeCompare env) (findFilesMatchingGlobs env globs)) k visited
       (recordCall (FindFiles globs) st) = (loaded, visited1, st1)"
  by (simp add: loadFilesFromGlobs_def)

lemma recordCall_fields [simp]:
  "pathsToGlobKey (recordCall c st) = pathsToGlobKey st"
  "globKeyToPaths (recordCall c st) = globKeyToPaths st"
  "warnings (recordCall c st) = warnings st"
  "globPatterns (recordCall c st) = globPatterns st"
  "calls (recordCall c st) = calls st @ [c]"
  by (simp_all add: recordCall_def)

lemma otherOwner_recordCall [simp]: "otherOwner (recordCall c st) p k = otherOwner st p k"
  by (simp add: otherOwner_def)

lemma loadFiles_grows:
  "loadFilesFromGlobs env globs k visited st = (loaded, visited1, st1) \<Longrightarrow> stateGrows st st1"
  using loadLoop_grows[OF loadFiles_unfold] stateGrows_recordCall stateGrows_trans by blast

lemma loadFiles_conflict:
  assumes owned: "getProp (pathsToGlobKey st) p = Some k1" and ne: "k1 \<noteq> k2"
    and nv: "\<not> visitedHas visited p"
    and mem: "p \<in> set (findFilesMatchingGlobs env globs)"
    and run: "loadFilesFromGlobs env globs k2 visited st = (loaded, visited1, st1)"
  shows "p \<notin> snd ` set loaded"
    and "LoadFile p \<notin> set (drop (length (calls st)) (calls st1))"
    and "getProp (pathsToGlobKey st1) p = Some k1"
    and "MultipleGlobKeys p k1 k2 \<in> set (multipleGlobKeys (warnings st1))"
proof -
  note loop = loadFiles_unfold[OF run]
  have kept: "getProp (pathsToGlobKey st1) p = Some k1"
    using loadFiles_grows[OF run] owned by (simp add: stateGrows_def)
  show "getProp (pathsToGlobKey st1) p = Some k1" by (rule kept)
  show "p \<notin> snd ` set loaded"
  proof
    assume "p \<in> snd ` set loaded"
    then obtain d where "(d, p) \<in> set loaded" by auto
    from loadLoop_fragments[OF loop this] kept ne show False by simp
  qed
  from loadLoop_new_calls[OF loop] obtain ls where
    ls: "calls st1 = calls st @ FindFiles globs # map LoadFile ls"
    and each: "\<forall>l \<in> set ls. getProp (pathsToGlobKey st1) l = Some k2"
    by auto
  have "p \<notin> set ls" using each kept ne by auto
  then show "LoadFile p \<notin> set (drop (length (calls st)) (calls st1))"
    using drop_calls[OF ls] by auto
  have mem': "p \<in> set (sortPaths (localeCompare env) (findFilesMatchingGlobs env globs))"
    using mem by simp
  from loop mem' show "MultipleGlobKeys p k1 k2 \<in> set (multipleGlobKeys (warnings st1))"
  proof (rule loadLoop_at_first)
    fix pre post l0 v0 s0 item v1 s1 l1
    assume step: "loadStep env p k2 v0 s0 = (item, v1, s1)"
      and v0: "visitedHas v0 p = visitedHas visited p"
      and o0: "getProp (pathsToGlobKey s0) p = getProp (pathsToGlobKey (recordCall (FindFiles globs) st)) p"
      and g: "stateGrows s1 st1"
    have "otherOwner s0 p k2 = Some k1" using o0 owned ne by (simp add: otherOwner_Some_iff)
    then have "s1 = pushMultipleGlobKeys p k1 k2 s0"
      using step v0 nv by (simp add: loadStep_conflict)
    then have "MultipleGlobKeys p k1 k2 \<in> set (multipleGlobKeys (warnings s1))"
      by (simp add: pushMultipleGlobKeys_def)
    then show ?thesis using g by (auto simp: stateGrows_def intro: prefix_mem)
  qed
qed

subsection \<open>What resolving a reference key does\<close>

lemma importFromGlobKey_elim:
  assumes "importFromGlobKey env cfg k t isArray visited st = Inr (c1, v1, st1)"
  obtains (skip) "\<forall>globs. getProp cfg (keyName k) \<noteq> Some (JArr globs)"
      "c1 = cfg" "v1 = visited" "st1 = st"
    | (resolve) globs loaded merged where
      "getProp cfg (keyName k) = Some (JArr globs)"
      "loadFilesFromGlobs env globs k visited
         (st\<lparr>globPatterns := foldl addPattern (globPatterns st) globs\<rparr>) = (loaded, v1, st1)"
      "c1 = deleteProp (keyName k) (setProp t merged cfg)"
      "isArray \<Longrightarrow> \<exists>xs. mergeArrayValues (orDefault (getProp cfg t) (JArr [])) loaded = Inr xs
                        \<and> merged = JArr xs"
      "\<not> isArray \<Longrightarrow> merged = JObj (mergeObjectValues (orDefault (getProp cfg t) (JObj [])) loaded)"
proof (cases "getProp cfg (keyName k)")
  case None
  with assms have "c1 = cfg" "v1 = visited" "st1 = st" by (simp_all add: importFromGlobKey_def)
  with None show ?thesis by (intro skip) auto
next
  case (Some g)
  have other: ?thesis if "\<forall>globs. g \<noteq> JArr globs"
  proof -
    from that assms Some have "c1 = cfg" "v1 = visited" "st1 = st"
      by (cases g; simp add: importFromGlobKey_def)+
    with that Some show ?thesis by (intro skip) auto
  qed
  show ?thesis
  proof (cases g)
    case (JArr globs)
    obtain loaded v2 st2 where lf: "loadFilesFromGlobs env globs k visited
         (st\<lparr>globPatterns := foldl addPattern (globPatterns st) globs\<rparr>) = (loaded, v2, st2)"
      by (cases "loadFilesFromGlobs env globs k visited
         (st\<lparr>globPatterns := foldl addPattern (globPatterns st) globs\<rparr>)") auto
    show ?thesis
    proof (cases isArray)
      case True
      then obtain xs where "mergeArrayValues (orDefault (getProp cfg t) (JArr [])) loaded = Inr xs"
        and "c1 = deleteProp (keyName k) (setProp t (JArr xs) cfg)" "v1 = v2" "st1 = st2"
        using assms Some JArr lf
        by (auto simp: importFromGlobKey_def split: sum.splits)
      then show ?thesis using resolve[of globs loaded "JArr xs"] Some JArr lf True by auto
    next
      case False
      then have "c1 = deleteProp (keyName k) (setProp t
          (JObj (mergeObjectValues (orDefault (getProp cfg t) (JObj [])) loaded)) cfg)"
        "v1 = v2" "st1 = st2"
        using assms Some JArr lf by (auto simp: importFromGlobKey_def)
      then show ?thesis
        using resolve[of globs loaded
            "JObj (mergeObjectValues (orDefault (getProp cfg t) (JObj [])) loaded)"]
          Some JArr lf False by auto
    qed
  qed (use other in auto)
qed

lemma stateGrows_globPatterns: "stateGrows st (st\<lparr>globPatterns := pats\<rparr>)"
  by (simp add: stateGrows_def)

lemma importFromGlobKey_grows:
  assumes "importFromGlobKey env cfg k t isArray visited st = Inr (c1, v1, st1)"
  shows "stateGrows st st1"
  using assms
proof (cases rule: importFromGlobKey_elim)
  case skip
  then show ?thesis by simp
next
  case (resolve globs loaded merged)
  from loadFiles_grows[OF resolve(2)] show ?thesis
    using stateGrows_trans[OF stateGrows_globPatterns] by blast
qed

lemma importRespects_stateGrows: "importRespects env stateGrows"
  unfolding importRespects_def
proof (intro allI impI)
  fix cfg globKey targetKey isArray visited st r
  assume "importFromGlobKey env cfg globKey targetKey isArray visited st = Inr r"
  then show "stateGrows st (snd (snd r))"
    using importFromGlobKey_grows[of env cfg globKey targetKey isArray visited st "fst r" "fst (snd r)" "snd (snd r)"]
    by simp
qed

lemma walk_grows:
  assumes "loaderMergeConfiguration env fuel cfg st = Inr r"
  shows "stateGrows (st\<lparr>warnings := emptyWarnings, globPatterns := []\<rparr>) (snd r)"
  using loaderMergeConfiguration_respects[OF reflp_stateGrows transp_stateGrows
      importRespects_stateGrows assms] .

subsection \<open>A path in the chain, an array-shaped payload, a claimed path\<close>

lemma loadFiles_cycle:
  assumes vis: "visited = Some chain0" and inchain: "p \<in> set chain0"
    and mem: "p \<in> set (findFilesMatchingGlobs env globs)"
    and run: "loadFilesFromGlobs env globs k visited st = (loaded, visited1, st1)"
  shows "p \<notin> snd ` set loaded"
    and "LoadFile p \<notin> set (drop (length (calls st)) (calls st1))"
    and "\<exists>chain. prefix chain0 chain \<and> p \<in> set chain \<and> Cycle p chain \<in> set (cycles (warnings st1))"
proof -
  note loop = loadFiles_unfold[OF run]
  have has: "visitedHas visited p" using vis inchain by (simp add: visitedHas_def)
  show "p \<notin> snd ` set loaded"
  proof
    assume "p \<in> snd ` set loaded"
    then obtain d where "(d, p) \<in> set loaded" by auto
    from loadLoop_fragments[OF loop this] has show False by simp
  qed
  from loadLoop_new_calls[OF loop] obtain ls where
    ls: "calls st1 = calls st @ FindFiles globs # map LoadFile ls"
    and each: "\<forall>l \<in> set ls. \<not> visitedHas visited l"
    by auto
  have "p \<notin> set ls" using each has by auto
  then show "LoadFile p \<notin> set (drop (length (calls st)) (calls st1))"
    using drop_calls[OF ls] by auto
  have mem': "p \<in> set (sortPaths (localeCompare env) (findFilesMatchingGlobs env globs))"
    using mem by simp
  from loop mem'
  show "\<exists>chain. prefix chain0 chain \<and> p \<in> set chain \<and> Cycle p chain \<in> set (cycles (warnings st1))"
  proof (rule loadLoop_at_first)
    fix pre post l0 v0 s0 item v1 s1 l1
    assume step: "loadStep env p k v0 s0 = (item, v1, s1)"
      and v0: "visitedHas v0 p = visitedHas visited p"
      and pre: "prefix (chainOf visited) (chainOf v0)"
      and g: "stateGrows s1 st1"
    have "loadStep env p k v0 s0 = (None, v0, pushCycle p (chainOf v0) s0)"
      using v0 has by (simp add: loadStep_cycle)
    with step have "s1 = pushCycle p (chainOf v0) s0" by auto
    then have "Cycle p (chainOf v0) \<in> set (cycles (warnings s1))" by (simp add: pushCycle_def)
    then have "Cycle p (chainOf v0) \<in> set (cycles (warnings st1))"
      using g by (auto simp: stateGrows_def intro: prefix_mem)
    moreover have "prefix chain0 (chainOf v0)" using pre vis by (simp add: chainOf_def)
    moreover have "p \<in> set (chainOf v0)" using \<open>prefix chain0 (chainOf v0)\<close> inchain
      by (rule prefix_mem)
    ultimately show ?thesis by blast
  qed
qed

lemma loadFiles_claimed:
  assumes mem: "p \<in> set (findFilesMatchingGlobs env globs)"
    and nv: "\<not> visitedHas visited p" and free: "otherOwner st p k = None"
    and run: "loadFilesFromGlobs env globs k visited st = (loaded, visited1, st1)"
  shows "getProp (pathsToGlobKey st1) p = Some k"
    and "p \<in> set (globKeyToPaths st1 k)"
    and "LoadFile p \<in> set (drop (length (calls st)) (calls st1))"
    and "loadConfigFile env p = Loaded (JArr xs) \<Longrightarrow> ArrayValue p \<in> set (arrayValues (warnings st1))"
    and "contribution (loadConfigFile env p) = None \<Longrightarrow> p \<notin> snd ` set loaded"
proof -
  note loop = loadFiles_unfold[OF run]
  have mem': "p \<in> set (sortPaths (localeCompare env) (findFilesMatchingGlobs env globs))"
    using mem by simp
  have all: "getProp (pathsToGlobKey st1) p = Some k \<and> p \<in> set (globKeyToPaths st1 k)
      \<and> LoadFile p \<in> set (drop (length (calls st)) (calls st1))
      \<and> (loadConfigFile env p = Loaded (JArr xs) \<longrightarrow> ArrayValue p \<in> set (arrayValues (warnings st1)))"
    using loop mem'
  proof (rule loadLoop_at_first)
    fix pre post l0 v0 s0 item v1 s1 l1
    assume step: "loadStep env p k v0 s0 = (item, v1, s1)"
      and v0: "visitedHas v0 p = visitedHas visited p"
      and o0: "getProp (pathsToGlobKey s0) p = getProp (pathsToGlobKey (recordCall (FindFiles globs) st)) p"
      and g0: "stateGrows (recordCall (FindFiles globs) st) s0"
      and g: "stateGrows s1 st1"
    have nv0: "\<not> visitedHas v0 p" using v0 nv by simp
    have free0: "otherOwner s0 p k = None" using o0 free by (simp add: otherOwner_None_iff)
    note c = loadStep_claimed[OF step nv0 free0]
    have a: "getProp (pathsToGlobKey st1) p = Some k" using c(1) g by (simp add: stateGrows_def)
    have b: "p \<in> set (globKeyToPaths st1 k)" using c(2) g by (auto simp: stateGrows_def)
    obtain zs where zs: "calls s0 = (calls st @ [FindFiles globs]) @ zs"
      using g0 by (auto simp: stateGrows_def prefix_def)
    obtain zs' where zs': "calls st1 = calls s1 @ zs'"
      using g by (auto simp: stateGrows_def prefix_def)
    have "calls st1 = calls st @ (FindFiles globs # zs @ LoadFile p # zs')"
      using zs zs' c(3) by simp
    from drop_calls[OF this] have d: "LoadFile p \<in> set (drop (length (calls st)) (calls st1))"
      by simp
    have e: "loadConfigFile env p = Loaded (JArr xs) \<longrightarrow> ArrayValue p \<in> set (arrayValues (warnings st1))"
      using c(5)[of xs] g by (auto simp: stateGrows_def intro: prefix_mem)
    show ?thesis using a b d e by blast
  qed
  then show "getProp (pathsToGlobKey st1) p = Some k" "p \<in> set (globKeyToPaths st1 k)"
    "LoadFile p \<in> set (drop (length (calls st)) (calls st1))"
    "loadConfigFile env p = Loaded (JArr xs) \<Longrightarrow> ArrayValue p \<in> set (arrayValues (warnings st1))"
    by auto
  show "p \<notin> snd ` set loaded" if none: "contribution (loadConfigFile env p) = None"
  proof
    assume "p \<in> snd ` set loaded"
    then obtain d where "(d, p) \<in> set loaded" by auto
    from loadLoop_fragments[OF loop this] none show False by simp
  qed
qed

subsection \<open>Loads that contribute the same\<close>

lemma otherOwner_cong: "pathsToGlobKey st = pathsToGlobKey st' \<Longrightarrow> otherOwner st p k = otherOwner st' p k"
  by (simp add: otherOwner_def)

lemma loadStep_same_contributions:
  assumes c: "contribution (loadConfigFile env q) = contribution (loadConfigFile env' q)"
    and o: "pathsToGlobKey st = pathsToGlobKey st'"
    and a: "loadStep env q k visited st = (item, v1, s1)"
    and b: "loadStep env' q k visited st' = (item', v1', s1')"
  shows "item = item' \<and> v1 = v1' \<and> pathsToGlobKey s1 = pathsToGlobKey s1'"
proof (cases "visitedHas visited q")
  case True
  then show ?thesis using a b o by (auto simp: loadStep_cycle pushCycle_def)
next
  case False
  show ?thesis
  proof (cases "otherOwner st q k")
    case None
    then have "otherOwner st' q k = None" using otherOwner_cong[OF o] by simp
    then show ?thesis using a b o c None False
      by (auto simp: loadStep_claim afterLoad_def pushArrayValue_def claimPath_def
            split: loadResult.splits)
  next
    case (Some k1)
    then have "otherOwner st' q k = Some k1" using otherOwner_cong[OF o] by simp
    then show ?thesis using a b o Some False
      by (auto simp: loadStep_conflict pushMultipleGlobKeys_def)
  qed
qed

lemma loadLoop_same_contributions:
  assumes c: "\<forall>q. contribution (loadConfigFile env q) = contribution (loadConfigFile env' q)"
  shows "pathsToGlobKey st = pathsToGlobKey st' \<Longrightarrow>
     loadLoop env files k visited st = (l, v1, s1) \<Longrightarrow>
     loadLoop env' files k visited st' = (l', v1', s1') \<Longrightarrow>
     l = l' \<and> v1 = v1' \<and> pathsToGlobKey s1 = pathsToGlobKey s1'"
proof (induction files arbitrary: visited st st' l v1 s1 l' v1' s1')
  case Nil
  then show ?case by simp
next
  case (Cons q rest)
  from Cons.prems(2) obtain item va sa la where
    a1: "loadStep env q k visited st = (item, va, sa)"
    and a2: "loadLoop env rest k va sa = (la, v1, s1)"
    and a3: "l = (case item of None \<Rightarrow> la | Some x \<Rightarrow> x # la)"
    by (rule loadLoop_Cons_elim)
  from Cons.prems(3) obtain item' vb sb lb where
    b1: "loadStep env' q k visited st' = (item', vb, sb)"
    and b2: "loadLoop env' rest k vb sb = (lb, v1', s1')"
    and b3: "l' = (case item' of None \<Rightarrow> lb | Some x \<Rightarrow> x # lb)"
    by (rule loadLoop_Cons_elim)
  have s: "item = item' \<and> va = vb \<and> pathsToGlobKey sa = pathsToGlobKey sb"
    using loadStep_same_contributions[OF _ Cons.prems(1) a1 b1] c by simp
  then have "la = lb \<and> v1 = v1' \<and> pathsToGlobKey s1 = pathsToGlobKey s1'"
    using Cons.IH[of sa sb va la v1 s1 lb v1' s1'] a2 b2 by simp
  then show ?case using a3 b3 s by auto
qed

lemma importFromGlobKey_same_contributions:
  assumes c: "\<forall>q. contribution (loadConfigFile env q) = contribution (loadConfigFile env' q)"
    and f: "findFilesMatchingGlobs env' = findFilesMatchingGlobs env"
    and lc: "localeCompare env' = localeCompare env"
  shows "map_sum id fst (importFromGlobKey env cfg k t isArray visited st)
       = map_sum id fst (importFromGlobKey env' cfg k t isArray visited st)"
proof (cases "getProp cfg (keyName k)")
  case None
  then show ?thesis by (simp add: importFromGlobKey_def)
next
  case (Some g)
  show ?thesis
  proof (cases g)
    case (JArr globs)
    define st0 where "st0 = recordCall (FindFiles globs) (st\<lparr>globPatterns := foldl addPattern (globPatterns st) globs\<rparr>)"
    define files where "files = sortPaths (localeCompare env) (findFilesMatchingGlobs env globs)"
    obtain l v1 s1 where a: "loadLoop env files k visited st0 = (l, v1, s1)"
      by (cases "loadLoop env files k visited st0") auto
    obtain l' v1' s1' where b: "loadLoop env' files k visited st0 = (l', v1', s1')"
      by (cases "loadLoop env' files k visited st0") auto
    have "l = l'" using loadLoop_same_contributions[OF c refl a b] by simp
    then show ?thesis
      using Some JArr a b f lc
      by (simp add: importFromGlobKey_def loadFilesFromGlobs_def st0_def files_def
            split: sum.splits)
  qed (use Some in \<open>simp_all add: importFromGlobKey_def\<close>)
qed

subsection \<open>Merging objects\<close>

lemma getProp_None_iff: "getProp kvs k = None \<longleftrightarrow> k \<notin> fst ` set kvs"
  by (simp add: getProp_def map_of_eq_None_iff)

lemma mergeEntries_untouched:
  "getProp entries key = None \<Longrightarrow> getProp (mergeEntries source entries result) key = getProp result key"
proof (induction entries arbitrary: result)
  case Nil
  then show ?case by simp
next
  case (Cons entry rest)
  obtain k v where e: "entry = (k, v)" by (cases entry) auto
  from Cons.prems e have "key \<noteq> k" and "getProp rest key = None"
    by (auto simp: getProp_def split: if_splits)
  then show ?case using Cons.IH e by (simp add: getProp_setProp)
qed

lemma mergeEntries_key:
  "distinct (map fst entries) \<Longrightarrow> getProp entries key = Some v \<Longrightarrow>
     getProp (mergeEntries source entries result) key = Some (stampElement source v)"
proof (induction entries arbitrary: result)
  case Nil
  then show ?case by (simp add: getProp_def)
next
  case (Cons entry rest)
  obtain k w where e: "entry = (k, w)" by (cases entry) auto
  show ?case
  proof (cases "key = k")
    case True
    then have v: "w = v" using Cons.prems(2) e by (simp add: getProp_def)
    have "getProp rest key = None" using Cons.prems(1) e True by (simp add: getProp_None_iff)
    then show ?thesis
      using e True v by (simp add: mergeEntries_untouched getProp_setProp stampElement_def)
  next
    case False
    then have "getProp rest key = Some v" using Cons.prems(2) e by (simp add: getProp_def)
    then show ?thesis using Cons.IH Cons.prems(1) e by simp
  qed
qed

lemma mergeObjectLoop_append:
  "mergeObjectLoop (xs @ ys) result = mergeObjectLoop ys (mergeObjectLoop xs result)"
  by (induction xs arbitrary: result) auto

lemma mergeObjectLoop_untouched:
  "\<forall>x \<in> set post. \<forall>f'. fst x = JObj f' \<longrightarrow> getProp f' key = None \<Longrightarrow>
     getProp (mergeObjectLoop post result) key = getProp result key"
proof (induction post arbitrary: result)
  case Nil
  then show ?case by simp
next
  case (Cons x post)
  obtain item source where x: "x = (item, source)" by (cases x) auto
  show ?case
  proof (cases item)
    case (JObj f')
    then have "getProp f' key = None" using Cons.prems x by auto
    then show ?thesis using Cons x JObj by (simp add: mergeEntries_untouched)
  qed (use Cons x in auto)
qed

lemma mergeObjectValues_last:
  assumes "distinct (map fst f)" "getProp f key = Some v"
    and "\<forall>x \<in> set post. \<forall>f'. fst x = JObj f' \<longrightarrow> getProp f' key = None"
  shows "getProp (mergeObjectValues base (pre @ (JObj f, s) # post)) key = Some (stampElement s v)"
  using assms
  by (simp add: mergeObjectValues_def mergeObjectLoop_append mergeObjectLoop_untouched
        mergeEntries_key)

subsection \<open>The order of the fragments\<close>

lemma loadLoop_subseq:
  "loadLoop env files k visited st = (loaded, visited1, st1) \<Longrightarrow> subseq (map snd loaded) files"
proof (induction files arbitrary: visited st loaded visited1 st1)
  case Nil
  then show ?case by simp
next
  case (Cons q rest)
  from Cons.prems show ?case
  proof (rule loadLoop_Cons_elim)
    fix item v1 s1 l1
    assume step: "loadStep env q k visited st = (item, v1, s1)"
      and loop: "loadLoop env rest k v1 s1 = (l1, visited1, st1)"
      and l: "loaded = (case item of None \<Rightarrow> l1 | Some x \<Rightarrow> x # l1)"
    note ih = Cons.IH[OF loop]
    show ?thesis
    proof (cases item)
      case None
      then show ?thesis using l ih by auto
    next
      case (Some x)
      obtain d p where x: "x = (d, p)" by (cases x) auto
      have "p = q" using loadStep_item[of env q k visited st d p v1 s1] step Some x by simp
      then show ?thesis using l ih Some x by auto
    qed
  qed
qed

lemma insertSorted_sorted:
  assumes "consistentCollation lc"
  shows "sorted_wrt (\<lambda>x y. lc x y \<le> 0) xs \<Longrightarrow> sorted_wrt (\<lambda>x y. lc x y \<le> 0) (insertSorted lc x xs)"
proof (induction xs)
  case Nil
  then show ?case by simp
next
  case (Cons y ys)
  have total: "\<And>a b. lc a b \<le> 0 \<or> lc b a \<le> 0"
    and trans: "\<And>a b c. lc a b \<le> 0 \<Longrightarrow> lc b c \<le> 0 \<Longrightarrow> lc a c \<le> 0"
    using assms unfolding consistentCollation_def by blast+
  show ?case
  proof (cases "lc x y \<le> 0")
    case True
    then have "\<forall>z \<in> set ys. lc x z \<le> 0" using Cons.prems trans by auto
    then show ?thesis using True Cons.prems by auto
  next
    case False
    then have "lc y x \<le> 0" using total by blast
    then show ?thesis using False Cons by auto
  qed
qed

lemma sortPaths_sorted:
  "consistentCollation lc \<Longrightarrow> sorted_wrt (\<lambda>x y. lc x y \<le> 0) (sortPaths lc xs)"
  by (induction xs) (simp_all add: sortPaths_def insertSorted_sorted)

lemma sortPaths_pair:
  assumes "files = [a, b] \<or> files = [b, a]" "lc a b < 0" "lc b a > 0"
  shows "sortPaths lc files = [a, b]"
  using assms by (auto simp: sortPaths_def)

lemma loadLoop_two:
  assumes ab: "a \<noteq> b"
    and pass: "\<not> visitedHas visited a" "\<not> visitedHas visited b"
      "otherOwner st a k = None" "otherOwner st b k = None"
    and la: "loadConfigFile env a = Loaded (JObj fa)" and lb: "loadConfigFile env b = Loaded (JObj fb)"
  shows "fst (loadLoop env [a, b] k visited st) = [(JObj fa, a), (JObj fb, b)]"
proof -
  obtain item v1 s1 where s1: "loadStep env a k visited st = (item, v1, s1)"
    by (cases "loadStep env a k visited st") auto
  obtain item2 v2 s2 where s2: "loadStep env b k v1 s1 = (item2, v2, s2)"
    by (cases "loadStep env b k v1 s1") auto
  have i1: "item = Some (JObj fa, a)"
    using loadStep_claimed(4)[OF s1 pass(1,3)] la by (simp add: contribution_def)
  have nv: "\<not> visitedHas v1 b" using loadStep_visited[OF s1] pass(2) ab by auto
  have "getProp (pathsToGlobKey s1) b = getProp (pathsToGlobKey st) b"
    using loadStep_owner_other[OF s1] ab by auto
  then have oo: "otherOwner s1 b k = None" using pass(4) by (simp add: otherOwner_None_iff)
  have i2: "item2 = Some (JObj fb, b)"
    using loadStep_claimed(4)[OF s2 nv oo] lb by (simp add: contribution_def)
  show ?thesis using s1 s2 i1 i2 by simp
qed

lemma codeUnitCompare_example:
  "codeUnitCompare ''a.yml'' ''b.yml'' < 0 \<and> codeUnitCompare ''b.yml'' ''a.yml'' > 0"
  by code_simp

lemma codeUnitCompare_refl [simp]: "codeUnitCompare x x = 0"
  by (induction x) auto

lemma codeUnitCompare_le:
  "codeUnitCompare x y \<le> 0 \<longleftrightarrow> (x, y) \<in> lexord {(a, b). (of_char a :: nat) < of_char b} \<or> x = y"
proof (induction x y rule: codeUnitCompare.induct)
  case (4 x xs y ys)
  then show ?case by (auto simp: of_char_eq_iff)
qed auto



lemma codeUnitCompare_consistent: "consistentCollation codeUnitCompare"
proof -
  let ?r = "{(a, b). (of_char a :: nat) < of_char b}"
  have lin: "(x, y) \<in> lexord ?r \<or> x = y \<or> (y, x) \<in> lexord ?r" for x y :: string
    by (rule lexord_linear) (auto simp: of_char_eq_iff neq_iff)
  have tr: "trans ?r" by (auto simp: trans_def)
  have "codeUnitCompare x y \<le> 0 \<or> codeUnitCompare y x \<le> 0" for x y
    using lin[of x y] by (auto simp: codeUnitCompare_le)
  moreover have "codeUnitCompare x z \<le> 0"
    if "codeUnitCompare x y \<le> 0" "codeUnitCompare y z \<le> 0" for x y z
    using that lexord_trans[OF _ _ tr, of x y z] by (auto simp: codeUnitCompare_le)
  ultimately show ?thesis unfolding consistentCollation_def by blast
qed

subsection \<open>The root of the tree\<close>

lemma importKey_prop:
  assumes "importKey env k t cfg st = Inr (cfg1, st1)" "n \<noteq> t"
  shows "getProp cfg1 n
     = (if n = keyName k \<and> (\<exists>globs. getProp cfg n = Some (JArr globs)) then None else getProp cfg n)"
proof -
  from assms(1) obtain v1 where
    "importFromGlobKey env cfg k t False None st = Inr (cfg1, v1, st1)"
    by (auto simp: importKey_def andThen_eq_Inr)
  then show ?thesis
  proof (cases rule: importFromGlobKey_elim)
    case skip
    then show ?thesis by auto
  next
    case (resolve globs loaded merged)
    then show ?thesis using assms(2) by (auto simp: getProp_deleteProp getProp_setProp)
  qed
qed

lemma importRootKeys_prop:
  "importRootKeys env keys cfg st = Inr (cfg1, st1) \<Longrightarrow> n \<notin> snd ` set keys \<Longrightarrow>
     getProp cfg1 n
       = (if n \<in> keyName ` fst ` set keys \<and> (\<exists>globs. getProp cfg n = Some (JArr globs)) then None
          else getProp cfg n)"
proof (induction keys arbitrary: cfg st)
  case Nil
  then show ?case by simp
next
  case (Cons key keys)
  obtain k t where key: "key = (k, t)" by (cases key) auto
  from Cons.prems(1) key obtain c2 s2 where
    a: "importKey env k t cfg st = Inr (c2, s2)"
    and b: "importRootKeys env keys c2 s2 = Inr (cfg1, st1)"
    by (auto simp: andThen_eq_Inr)
  have nt: "n \<noteq> t" and nk: "n \<notin> snd ` set keys" using Cons.prems(2) key by auto
  note p = importKey_prop[OF a nt]
  note q = Cons.IH[OF b nk]
  show ?case using p q key by (auto split: if_splits)
qed

lemma processInputsOf_prop:
  "processInputsOf env fuel cfg st = Inr (cfg1, st1) \<Longrightarrow> n \<noteq> ''_inputs'' \<Longrightarrow>
     getProp cfg1 n = getProp cfg n"
  by (auto simp: processInputsOf_def andThen_eq_Inr getProp_setProp split: option.splits)

lemma processStructuresOf_prop:
  "processStructuresOf env fuel cfg st = Inr (cfg1, st1) \<Longrightarrow> n \<noteq> ''_structures'' \<Longrightarrow>
     getProp cfg1 n = getProp cfg n"
  by (auto simp: processStructuresOf_def andThen_eq_Inr getProp_setProp split: option.splits)

lemma processCollections_prop:
  "processCollections env fuel cfg st = Inr (cfg1, st1) \<Longrightarrow> n \<noteq> ''collections_config'' \<Longrightarrow>
     getProp cfg1 n = getProp cfg n"
  by (auto simp: processCollections_def andThen_eq_Inr getProp_setProp
        split: option.splits json.splits)

lemma processSnippets_prop:
  "processSnippets env fuel cfg st = Inr (cfg1, st1) \<Longrightarrow> n \<noteq> ''_snippets'' \<Longrightarrow>
     getProp cfg1 n = getProp cfg n"
  by (auto simp: processSnippets_def andThen_eq_Inr getProp_setProp
        split: option.splits json.splits)

lemma loaderMergeConfiguration_root:
  assumes run: "loaderMergeConfiguration env fuel cfg st = Inr (cfg1, st1)"
    and key: "(k, t) \<in> set rootKeys"
  shows "getProp cfg1 (keyName k)
     = (if \<exists>globs. getProp cfg (keyName k) = Some (JArr globs) then None else getProp cfg (keyName k))"
proof -
  from run obtain c1 s1 c2 s2 c3 s3 c4 s4 where
    x1: "importRootKeys env rootKeys cfg (st\<lparr>warnings := emptyWarnings, globPatterns := []\<rparr>) = Inr (c1, s1)"
    and x2: "processInputsOf env fuel c1 s1 = Inr (c2, s2)"
    and x3: "processStructuresOf env fuel c2 s2 = Inr (c3, s3)"
    and x4: "processCollections env fuel c3 s3 = Inr (c4, s4)"
    and x5: "processSnippets env fuel c4 s4 = Inr (cfg1, st1)"
    by (auto simp: loaderMergeConfiguration_def andThen_eq_Inr)
  have n1: "keyName k \<notin> snd ` set rootKeys" and n2: "keyName k \<in> keyName ` fst ` set rootKeys"
    and n3: "keyName k \<noteq> ''_inputs''" "keyName k \<noteq> ''_structures''"
      "keyName k \<noteq> ''collections_config''" "keyName k \<noteq> ''_snippets''"
    using key by (auto simp: rootKeys_def)
  show ?thesis
    using importRootKeys_prop[OF x1 n1] processInputsOf_prop[OF x2 n3(1)]
      processStructuresOf_prop[OF x3 n3(2)] processCollections_prop[OF x4 n3(3)]
      processSnippets_prop[OF x5 n3(4)] n2
    by simp
qed

subsection \<open>A tree without reference keys\<close>

lemma keyName_globKeyNames: "keyName k \<in> set globKeyNames"
  by (cases k) (simp_all add: globKeyNames_def allGlobKeys_def)

lemma getProp_noGlobKey: "\<not> hasGlobKeyFields kvs \<Longrightarrow> getProp kvs (keyName k) = None"
  using keyName_globKeyNames[of k] by (induction kvs) (auto simp: getProp_def)

lemma getProp_sub:
  "getProp kvs k = Some v \<Longrightarrow> (\<not> hasGlobKeyFields kvs \<longrightarrow> \<not> hasGlobKey v) \<and> depth v \<le> depthFields kvs"
  by (induction kvs) (auto simp: getProp_def split: if_splits)

lemma setProp_same: "getProp kvs k = Some v \<Longrightarrow> setProp k v kvs = kvs"
  by (induction kvs) (auto simp: getProp_def split: if_splits)

lemma inputStructures_Some:
  "inputStructures v = Some (iv, opts, structures)
     \<longleftrightarrow> v = JObj iv \<and> getProp iv ''options'' = Some (JObj opts)
         \<and> getProp opts ''structures'' = Some (JObj structures)"
  by (auto simp: inputStructures_def split: json.splits option.splits)

lemma restoreVisited_chainOf [simp]: "restoreVisited visited (Some (chainOf visited)) = visited"
  by (cases visited) (simp_all add: restoreVisited_def chainOf_def)

lemma importIfTruthy_absent:
  "getProp cfg (keyName k) = None \<Longrightarrow> importIfTruthy env cfg k t isArray visited st = Inr (cfg, visited, st)"
  by (simp add: importIfTruthy_def truthyProp_def)

lemma importFromGlobKey_absent:
  "getProp cfg (keyName k) = None \<Longrightarrow> importFromGlobKey env cfg k t isArray visited st = Inr (cfg, visited, st)"
  by (simp add: importFromGlobKey_def)

lemma walker_identity:
  shows "\<not> hasGlobKey inputs \<Longrightarrow> depth inputs \<le> fuel
           \<Longrightarrow> processInputsKey env fuel inputs visited st = Inr (inputs, visited, st)"
    and "\<not> hasGlobKeyFields entries \<Longrightarrow> depthFields entries \<le> fuel
           \<Longrightarrow> processInputEntries env fuel entries visited st = Inr (entries, visited, st)"
    and "\<not> hasGlobKey inputValue \<Longrightarrow> depth inputValue \<le> fuel
           \<Longrightarrow> processInputValue env fuel inputValue visited st = Inr (inputValue, visited, st)"
    and "\<not> hasGlobKeyList vals \<Longrightarrow> depthList vals < fuel
           \<Longrightarrow> processStructureValues env fuel vals visited st = Inr (vals, visited, st)"
    and "\<not> hasGlobKey structureValue \<Longrightarrow> depth structureValue < fuel
           \<Longrightarrow> processStructureValue env fuel structureValue visited st = Inr (structureValue, visited, st)"
proof (induction env fuel inputs visited st and env fuel entries visited st
         and env fuel inputValue visited st and env fuel vals visited st
         and env fuel structureValue visited st
       rule: processInputsKey_processInputEntries_processInputValue_processStructureValues_processStructureValue.induct)
  case (1 env fuel inputs visited st)
  show ?case
  proof (cases inputs)
    case (JObj entries)
    then have "processInputEntries env fuel entries visited st = Inr (entries, visited, st)"
      using "1.IH"[OF JObj] "1.prems" by simp
    then show ?thesis using JObj by simp
  qed simp_all
next
  case (2 env fuel visited st)
  then show ?case by simp
next
  case (3 env fuel k inputValue rest visited st)
  have x: "processInputValue env fuel inputValue visited st = Inr (inputValue, visited, st)"
    using "3.IH"(1) "3.prems" by simp
  have "processInputEntries env fuel rest visited st = Inr (rest, visited, st)"
    using "3.IH"(2)[OF x refl refl] "3.prems" by simp
  then show ?case using x by simp
next
  case (4 env fuel inputValue visited st)
  show ?case
  proof (cases "inputStructures inputValue")
    case None
    then show ?thesis by simp
  next
    case (Some found)
    obtain iv opts structures where found: "found = (iv, opts, structures)" by (cases found) auto
    from Some found have shape: "inputValue = JObj iv" "getProp iv ''options'' = Some (JObj opts)"
      "getProp opts ''structures'' = Some (JObj structures)"
      by (simp_all add: inputStructures_Some)
    have s: "\<not> hasGlobKeyFields structures" "Suc (depthFields structures) \<le> fuel"
      using "4.prems" shape getProp_sub[OF shape(2)] getProp_sub[OF shape(3)] by auto
    have x: "importIfTruthy env structures Values_from_glob ''values'' True (Some (chainOf visited)) st
        = Inr (structures, Some (chainOf visited), st)"
      by (rule importIfTruthy_absent[OF getProp_noGlobKey[OF s(1)]])
    have rebuilt: "putStructures iv opts structures = inputValue"
      using shape by (simp add: putStructures_def setProp_same)
    show ?thesis
    proof (cases "arrayProp structures ''values''")
      case None
      then show ?thesis using Some found x rebuilt by simp
    next
      case (Some vals)
      then have v: "getProp structures ''values'' = Some (JArr vals)"
        by (auto simp: arrayProp_def split: option.splits json.splits)
      have p: "\<not> hasGlobKeyList vals" "depthList vals < fuel"
        using getProp_sub[OF v] s by auto
      have "processStructureValues env fuel vals (Some (chainOf visited)) st
          = Inr (vals, Some (chainOf visited), st)"
        using "4.IH"[OF \<open>inputStructures inputValue = Some found\<close> found[symmetric] refl x refl refl Some p] .
      then show ?thesis
        using \<open>inputStructures inputValue = Some found\<close> found x rebuilt Some v
        by (simp add: setProp_same)
    qed
  qed
next
  case (5 env fuel visited st)
  then show ?case by simp
next
  case (6 env fuel structureValue rest visited st)
  have x: "processStructureValue env fuel structureValue visited st = Inr (structureValue, visited, st)"
    using "6.IH"(1) "6.prems" by simp
  have "processStructureValues env fuel rest visited st = Inr (rest, visited, st)"
    using "6.IH"(2)[OF x refl refl] "6.prems" by simp
  then show ?case using x by simp
next
  case (7 env structureValue visited st)
  then show ?case by simp
next
  case (8 env fuel structureValue visited st)
  show ?case
  proof (cases structureValue)
    case (JObj sv)
    have s: "\<not> hasGlobKeyFields sv" "depthFields sv \<le> fuel" using "8.prems" JObj by auto
    have x: "importIfTruthy env sv Inputs_from_glob ''_inputs'' False visited st = Inr (sv, visited, st)"
      by (rule importIfTruthy_absent[OF getProp_noGlobKey[OF s(1)]])
    show ?thesis
    proof (cases "truthyInputs sv")
      case None
      then show ?thesis using JObj x by simp
    next
      case (Some inputs)
      then have v: "getProp sv ''_inputs'' = Some inputs"
        by (auto simp: truthyInputs_def split: option.splits if_splits)
      have p: "\<not> hasGlobKey inputs" "depth inputs \<le> fuel"
        using getProp_sub[OF v] s by auto
      have "processInputsKey env fuel inputs visited st = Inr (inputs, visited, st)"
        using "8.IH"[OF JObj x refl refl Some p] .
      then show ?thesis using JObj x Some v by (simp add: setProp_same)
    qed
  qed simp_all
qed

lemma field_sub:
  "(k, v) \<in> set kvs \<Longrightarrow> (\<not> hasGlobKeyFields kvs \<longrightarrow> \<not> hasGlobKey v) \<and> depth v \<le> depthFields kvs"
  by (induction kvs) auto

lemma fields_sub:
  "v \<in> snd ` set kvs \<Longrightarrow> (\<not> hasGlobKeyFields kvs \<longrightarrow> \<not> hasGlobKey v) \<and> depth v \<le> depthFields kvs"
  using field_sub by fastforce

lemma forEachValue_identity:
  "(\<And>v s'. v \<in> snd ` set kvs \<Longrightarrow> f v s' = Inr (v, s')) \<Longrightarrow> forEachValue f kvs s = Inr (kvs, s)"
  by (induction kvs arbitrary: s) auto

lemma processStructure_identity:
  assumes "\<not> hasGlobKey structure" "depth structure \<le> fuel"
  shows "processStructure env fuel structure (visited, st) = Inr (structure, visited, st)"
proof (cases "structure")
  case (JObj sv)
  have s: "\<not> hasGlobKeyFields sv" "Suc (depthFields sv) \<le> fuel" using assms JObj by auto
  have x: "importFromGlobKey env sv Values_from_glob ''values'' True (Some (chainOf visited)) st
      = Inr (sv, Some (chainOf visited), st)"
    by (rule importFromGlobKey_absent[OF getProp_noGlobKey[OF s(1)]])
  show ?thesis
  proof (cases "arrayProp sv ''values''")
    case None
    then show ?thesis using JObj x by (simp add: processStructure_def)
  next
    case (Some vals)
    then have v: "getProp sv ''values'' = Some (JArr vals)"
      by (auto simp: arrayProp_def split: option.splits json.splits)
    have p: "\<not> hasGlobKeyList vals" "depthList vals < fuel"
      using getProp_sub[OF v] s by auto
    have "processStructureValues env fuel vals (Some (chainOf visited)) st
        = Inr (vals, Some (chainOf visited), st)"
      by (rule walker_identity(4)[OF p])
    then show ?thesis using JObj x Some v by (simp add: processStructure_def setProp_same)
  qed
qed (simp_all add: processStructure_def)

lemma processStructuresKey_identity:
  assumes "\<not> hasGlobKey structures" "depth structures \<le> fuel"
  shows "processStructuresKey env fuel structures visited st = Inr (structures, visited, st)"
proof (cases structures)
  case (JObj entries)
  have "forEachValue (processStructure env fuel) entries (visited, st) = Inr (entries, visited, st)"
  proof (rule forEachValue_identity)
    fix v and s' :: "string list option \<times> loader"
    assume "v \<in> snd ` set entries"
    from fields_sub[OF this] have "\<not> hasGlobKey v" "depth v \<le> fuel" using assms JObj by auto
    then show "processStructure env fuel v s' = Inr (v, s')"
      using processStructure_identity by (cases s') simp
  qed
  then show ?thesis using JObj by (simp add: processStructuresKey_def)
qed (simp_all add: processStructuresKey_def)

lemma importKey_identity:
  "\<not> hasGlobKeyFields cfg \<Longrightarrow> importKey env k t cfg st = Inr (cfg, st)"
  by (simp add: importKey_def importFromGlobKey_absent getProp_noGlobKey)

lemma importRootKeys_identity:
  "\<not> hasGlobKeyFields cfg \<Longrightarrow> importRootKeys env keys cfg st = Inr (cfg, st)"
  by (induction keys) (auto simp: importKey_identity)

lemma processInputsOf_identity:
  assumes "\<not> hasGlobKeyFields cfg" "depthFields cfg \<le> fuel"
  shows "processInputsOf env fuel cfg st = Inr (cfg, st)"
proof (cases "getProp cfg ''_inputs''")
  case None
  then show ?thesis by (simp add: processInputsOf_def)
next
  case (Some inputs)
  from getProp_sub[OF Some] have "\<not> hasGlobKey inputs" "depth inputs \<le> fuel" using assms by auto
  from walker_identity(1)[OF this] show ?thesis
    using Some by (simp add: processInputsOf_def setProp_same)
qed

lemma processStructuresOf_identity:
  assumes "\<not> hasGlobKeyFields cfg" "depthFields cfg \<le> fuel"
  shows "processStructuresOf env fuel cfg st = Inr (cfg, st)"
proof (cases "getProp cfg ''_structures''")
  case None
  then show ?thesis by (simp add: processStructuresOf_def)
next
  case (Some structures)
  from getProp_sub[OF Some] have "\<not> hasGlobKey structures" "depth structures \<le> fuel"
    using assms by auto
  from processStructuresKey_identity[OF this] show ?thesis
    using Some by (simp add: processStructuresOf_def setProp_same)
qed

lemma importInputsAndStructures_identity:
  assumes "\<not> hasGlobKeyFields cfg" "depthFields cfg \<le> fuel"
  shows "importInputsAndStructures env fuel cfg st = Inr (cfg, st)"
  using assms
  by (simp add: importInputsAndStructures_def importKey_identity
      processInputsOf_identity processStructuresOf_identity)

lemma processSchema_identity:
  assumes "\<not> hasGlobKey v" "depth v \<le> fuel"
  shows "processSchema env fuel v st = Inr (v, st)"
proof (cases v)
  case (JObj sv)
  then have "\<not> hasGlobKeyFields sv" "depthFields sv \<le> fuel" using assms by auto
  then show ?thesis using JObj by (simp add: processSchema_def importInputsAndStructures_identity)
qed (simp_all add: processSchema_def)

lemma processSnippet_identity:
  assumes "\<not> hasGlobKey v" "depth v \<le> fuel"
  shows "processSnippet env fuel v st = Inr (v, st)"
proof (cases v)
  case (JObj sc)
  then have "\<not> hasGlobKeyFields sc" "depthFields sc \<le> fuel" using assms by auto
  then show ?thesis using JObj by (simp add: processSnippet_def importInputsAndStructures_identity)
qed (simp_all add: processSnippet_def)

lemma processCollection_identity:
  assumes "\<not> hasGlobKey v" "depth v \<le> fuel"
  shows "processCollection env fuel v st = Inr (v, st)"
proof (cases v)
  case (JObj c)
  then have c: "\<not> hasGlobKeyFields c" "depthFields c \<le> fuel" using assms by auto
  have noSchemas: "getProp c ''schemas_from_glob'' = None"
    using getProp_noGlobKey[OF c(1), of Schemas_from_glob] by simp
  show ?thesis
  proof (cases "\<exists>schemas. getProp c ''schemas'' = Some (JObj schemas)")
    case True
    then obtain schemas where sc: "getProp c ''schemas'' = Some (JObj schemas)" by blast
    have "forEachValue (processSchema env fuel) schemas st = Inr (schemas, st)"
    proof (rule forEachValue_identity)
      fix w and s' :: loader
      assume "w \<in> snd ` set schemas"
      from fields_sub[OF this] getProp_sub[OF sc] have "\<not> hasGlobKey w" "depth w \<le> fuel"
        using c by auto
      then show "processSchema env fuel w s' = Inr (w, s')" by (rule processSchema_identity)
    qed
    then show ?thesis
      using JObj noSchemas sc c
      by (simp add: processCollection_def importInputsAndStructures_identity setProp_same)
  next
    case False
    then show ?thesis
      using JObj noSchemas c
      by (auto simp: processCollection_def importInputsAndStructures_identity
            split: option.splits json.splits)
  qed
qed (simp_all add: processCollection_def)

lemma processCollections_identity:
  assumes "\<not> hasGlobKeyFields cfg" "depthFields cfg \<le> fuel"
  shows "processCollections env fuel cfg st = Inr (cfg, st)"
proof (cases "\<exists>collections. getProp cfg ''collections_config'' = Some (JObj collections)")
  case True
  then obtain collections where cc: "getProp cfg ''collections_config'' = Some (JObj collections)"
    by blast
  have "forEachValue (processCollection env fuel) collections st = Inr (collections, st)"
  proof (rule forEachValue_identity)
    fix w and s' :: loader
    assume "w \<in> snd ` set collections"
    from fields_sub[OF this] getProp_sub[OF cc] have "\<not> hasGlobKey w" "depth w \<le> fuel"
      using assms by auto
    then show "processCollection env fuel w s' = Inr (w, s')" by (rule processCollection_identity)
  qed
  then show ?thesis using cc by (simp add: processCollections_def setProp_same)
next
  case False
  then show ?thesis by (auto simp: processCollections_def split: option.splits json.splits)
qed

lemma processSnippets_identity:
  assumes "\<not> hasGlobKeyFields cfg" "depthFields cfg \<le> fuel"
  shows "processSnippets env fuel cfg st = Inr (cfg, st)"
proof (cases "\<exists>snippets. getProp cfg ''_snippets'' = Some (JObj snippets)")
  case True
  then obtain snippets where sn: "getProp cfg ''_snippets'' = Some (JObj snippets)" by blast
  from getProp_sub[OF sn] have q: "\<not> hasGlobKeyFields snippets" "depthFields snippets \<le> fuel"
    using assms by auto
  have "forEachValue (processSnippet env fuel) snippets st = Inr (snippets, st)"
  proof (rule forEachValue_identity)
    fix w and s' :: loader
    assume "w \<in> snd ` set snippets"
    from fields_sub[OF this] have "\<not> hasGlobKey w" "depth w \<le> fuel" using q by auto
    then show "processSnippet env fuel w s' = Inr (w, s')" by (rule processSnippet_identity)
  qed
  then show ?thesis
    using sn q by (simp add: processSnippets_def setProp_same importKey_identity)
next
  case False
  then show ?thesis by (auto simp: processSnippets_def split: option.splits json.splits)
qed

lemma loaderMergeConfiguration_identity:
  assumes "\<not> hasGlobKeyFields cfg" "depthFields cfg \<le> fuel"
  shows "loaderMergeConfiguration env fuel cfg st
    = Inr (cfg, st\<lparr>warnings := emptyWarnings, globPatterns := []\<rparr>)"
  using assms
  by (simp add: loaderMergeConfiguration_def importRootKeys_identity processInputsOf_identity
      processStructuresOf_identity processCollections_identity processSnippets_identity)

subsection \<open>A loader whose every load fails\<close>

lemma loadStep_throws:
  assumes "loadConfigFile env p = LoadThrows" "loadStep env p k visited st = (item, v1, st1)"
  shows "item = None \<and> arrayValues (warnings st1) = arrayValues (warnings st)"
  using assms
  by (auto simp: loadStep_def Let_def pushCycle_def pushMultipleGlobKeys_def claimPath_def
        recordCall_def split: if_splits option.splits)

lemma loadLoop_throws:
  assumes "\<forall>p. loadConfigFile env p = LoadThrows"
  shows "loadLoop env files k visited st = (loaded, v1, st1)
    \<Longrightarrow> loaded = [] \<and> arrayValues (warnings st1) = arrayValues (warnings st)"
proof (induction files arbitrary: visited st loaded v1 st1)
  case Nil
  then show ?case by simp
next
  case (Cons q rest)
  from Cons.prems show ?case
  proof (rule loadLoop_Cons_elim)
    fix item v2 s2 l1
    assume step: "loadStep env q k visited st = (item, v2, s2)"
      and loop: "loadLoop env rest k v2 s2 = (l1, v1, st1)"
      and l: "loaded = (case item of None \<Rightarrow> l1 | Some x \<Rightarrow> x # l1)"
    from loadStep_throws[OF _ step] assms
    have a: "item = None" "arrayValues (warnings s2) = arrayValues (warnings st)" by auto
    from Cons.IH[OF loop] a l show ?thesis by simp
  qed
qed

lemma loadFiles_throws:
  assumes "\<forall>p. loadConfigFile env p = LoadThrows"
    and "loadFilesFromGlobs env globs k visited st = (loaded, v1, st1)"
  shows "loaded = [] \<and> arrayValues (warnings st1) = arrayValues (warnings st)"
  using loadLoop_throws[OF assms(1) loadFiles_unfold[OF assms(2)]] by simp

lemma importFromGlobKey_skip:
  "\<forall>globs. getProp cfg (keyName k) \<noteq> Some (JArr globs)
    \<Longrightarrow> importFromGlobKey env cfg k t isArray visited st = Inr (cfg, visited, st)"
  by (auto simp: importFromGlobKey_def split: option.splits json.splits)

lemma importFromGlobKey_throws:
  assumes thr: "\<forall>p. loadConfigFile env p = LoadThrows"
    and g: "getProp cfg (keyName k) = Some (JArr globs)"
  shows "\<exists>v1 st1. arrayValues (warnings st1) = arrayValues (warnings st)
     \<and> importFromGlobKey env cfg k t isArray visited st =
         (if isArray then
            (case arraySpread (orDefault (getProp cfg t) (JArr [])) of
               Inl e \<Rightarrow> Inl e
             | Inr xs \<Rightarrow> Inr (deleteProp (keyName k) (setProp t (JArr xs) cfg), v1, st1))
          else
            Inr (deleteProp (keyName k)
                   (setProp t (JObj (objectSpread (orDefault (getProp cfg t) (JObj [])))) cfg),
                 v1, st1))"
proof -
  obtain loaded v1 st1 where l:
    "loadFilesFromGlobs env globs k visited
       (st\<lparr>globPatterns := foldl addPattern (globPatterns st) globs\<rparr>) = (loaded, v1, st1)"
    by (cases "loadFilesFromGlobs env globs k visited
       (st\<lparr>globPatterns := foldl addPattern (globPatterns st) globs\<rparr>)") auto
  from loadFiles_throws[OF thr l]
  have e: "loaded = []" "arrayValues (warnings st1) = arrayValues (warnings st)" by simp_all
  have "importFromGlobKey env cfg k t isArray visited st =
         (if isArray then
            (case arraySpread (orDefault (getProp cfg t) (JArr [])) of
               Inl e \<Rightarrow> Inl e
             | Inr xs \<Rightarrow> Inr (deleteProp (keyName k) (setProp t (JArr xs) cfg), v1, st1))
          else
            Inr (deleteProp (keyName k)
                   (setProp t (JObj (objectSpread (orDefault (getProp cfg t) (JObj [])))) cfg),
                 v1, st1))"
    using g l e(1)
    by (simp add: importFromGlobKey_def mergeArrayValues_def mergeObjectValues_def
          split: sum.splits)
  then show ?thesis using e(2) by blast
qed

lemma importRespects_throws:
  assumes "\<forall>p. loadConfigFile env p = LoadThrows"
  shows "importRespects env (\<lambda>s s'. arrayValues (warnings s') = arrayValues (warnings s))"
  unfolding importRespects_def
proof (intro allI impI)
  fix cfg k t isArray visited st r
  assume run: "importFromGlobKey env cfg k t isArray visited st = Inr r"
  show "arrayValues (warnings (snd (snd r))) = arrayValues (warnings st)"
  proof (cases "\<exists>globs. getProp cfg (keyName k) = Some (JArr globs)")
    case True
    then obtain globs where g: "getProp cfg (keyName k) = Some (JArr globs)" by blast
    from importFromGlobKey_throws[OF assms g, of st t isArray visited] run
    show ?thesis by (auto split: if_splits sum.splits)
  next
    case False
    then show ?thesis using importFromGlobKey_skip[of cfg k env t isArray visited st] run by auto
  qed
qed

subsection \<open>Shape of the tree under resolution\<close>

lemma valuesIterableFields_iff:
  "valuesIterableFields kvs \<longleftrightarrow> (\<forall>kv \<in> set kvs. valuesIterable (snd kv))"
  by (induction kvs) auto

lemma valuesIterableList_iff: "valuesIterableList xs \<longleftrightarrow> (\<forall>x \<in> set xs. valuesIterable x)"
  by (induction xs) auto

lemma depthFields_le_iff: "depthFields kvs \<le> n \<longleftrightarrow> (\<forall>kv \<in> set kvs. depth (snd kv) \<le> n)"
  by (induction kvs) auto

lemma depthList_le_iff: "depthList xs \<le> n \<longleftrightarrow> (\<forall>x \<in> set xs. depth x \<le> n)"
  by (induction xs) auto

lemma set_setProp: "set (setProp k v kvs) \<subseteq> insert (k, v) (set kvs)"
  by (induction kvs) (auto split: if_splits)

lemma set_deleteProp: "set (deleteProp k kvs) \<subseteq> set kvs"
  by (auto simp: deleteProp_def)

lemma getProp_mem: "getProp kvs k = Some v \<Longrightarrow> (k, v) \<in> set kvs"
  by (simp add: getProp_def map_of_SomeD)

lemma digitChar_digit: "digitChar n \<in> set ''0123456789''"
  unfolding digitChar_def by (rule nth_mem) simp

lemma decimal_digits: "set (decimal n) \<subseteq> set ''0123456789''"
proof (induction n rule: decimal.induct)
  case (1 n)
  show ?case
  proof (cases "n < 10")
    case True
    then have "decimal n = [digitChar n]" by (subst decimal.simps) simp
    then show ?thesis using digitChar_digit[of n] by (simp del: decimal.simps)
  next
    case False
    then have "decimal n = decimal (n div 10) @ [digitChar (n mod 10)]"
      by (subst decimal.simps) simp
    then show ?thesis
      using 1[OF False] digitChar_digit[of "n mod 10"] by (simp del: decimal.simps)
  qed
qed

lemma decimal_not_key: "CHR ''v'' \<in> set s \<Longrightarrow> decimal n \<noteq> s"
  using decimal_digits[of n] by (auto simp del: decimal.simps)

lemma indexed_keys:
  assumes "(k, v) \<in> set (indexed xs)"
  shows "(\<exists>n. k = decimal n) \<and> v \<in> set xs"
proof -
  from assms have m: "(k, v) \<in> set (zip (map decimal [0..<length xs]) xs)"
    by (simp only: indexed_def)
  from set_zip_leftD[OF m] have "k \<in> decimal ` set [0..<length xs]" by (simp only: set_map)
  then have "\<exists>n. k = decimal n" by blast
  then show ?thesis using set_zip_rightD[OF m] by simp
qed

lemma indexed_values: "kv \<in> set (indexed xs) \<Longrightarrow> snd kv \<in> set xs"
  using indexed_keys[of "fst kv" "snd kv" xs] by (simp del: decimal.simps)

lemma iterableBase_same:
  assumes "getProp a ''values'' = getProp b ''values''"
    and "getProp a ''values_from_glob'' = getProp b ''values_from_glob''"
  shows "iterableBase a = iterableBase b"
  unfolding iterableBase_def assms ..

lemma iterableBase_absent: "getProp a ''values_from_glob'' = None \<Longrightarrow> iterableBase a"
  by (simp add: iterableBase_def)

lemma getProp_indexed: "CHR ''v'' \<in> set k \<Longrightarrow> getProp (indexed xs) k = None"
proof (rule ccontr)
  assume v: "CHR ''v'' \<in> set k" and "getProp (indexed xs) k \<noteq> None"
  then obtain x where "getProp (indexed xs) k = Some x" by auto
  from indexed_keys[OF getProp_mem[OF this]] obtain n where "k = decimal n" by blast
  then show False using decimal_not_key[OF v, of n] by simp
qed

lemma iterableBase_indexed: "iterableBase (indexed xs)"
  by (simp add: iterableBase_def getProp_indexed)

lemma getProp_iterable:
  "getProp kvs k = Some v \<Longrightarrow> valuesIterableFields kvs \<Longrightarrow> valuesIterable v"
  using getProp_mem valuesIterableFields_iff by fastforce

lemma objectSpread_iterable:
  assumes "valuesIterable b"
  shows "valuesIterable (JObj (objectSpread b))"
proof (cases b)
  case (JArr xs)
  have "valuesIterableFields (indexed xs)"
    unfolding valuesIterableFields_iff
  proof
    fix kv assume "kv \<in> set (indexed xs)"
    then have "snd kv \<in> set xs" by (rule indexed_values)
    then show "valuesIterable (snd kv)" using assms JArr by (simp add: valuesIterableList_iff)
  qed
  then show ?thesis using JArr iterableBase_indexed by simp
next
  case (JStr str)
  have "valuesIterableFields (indexed (map (\<lambda>c. JStr [c]) str))"
    unfolding valuesIterableFields_iff
  proof
    fix kv assume "kv \<in> set (indexed (map (\<lambda>c. JStr [c]) str))"
    then have "snd kv \<in> set (map (\<lambda>c. JStr [c]) str)" by (rule indexed_values)
    then show "valuesIterable (snd kv)" by auto
  qed
  then show ?thesis using JStr iterableBase_indexed by simp
qed (use assms in \<open>simp_all add: iterableBase_def getProp_def\<close>)

lemma objectSpread_depth: "depth (JObj (objectSpread b)) \<le> max 1 (depth b)"
proof (cases b)
  case (JArr xs)
  have "depthFields (indexed xs) \<le> depthList xs"
    unfolding depthFields_le_iff
  proof
    fix kv assume "kv \<in> set (indexed xs)"
    then have "snd kv \<in> set xs" by (rule indexed_values)
    then show "depth (snd kv) \<le> depthList xs" using depthList_le_iff[of xs "depthList xs"] by simp
  qed
  then show ?thesis using JArr by simp
next
  case (JStr str)
  have "depthFields (indexed (map (\<lambda>c. JStr [c]) str)) \<le> 0"
    unfolding depthFields_le_iff
  proof
    fix kv assume "kv \<in> set (indexed (map (\<lambda>c. JStr [c]) str))"
    then have "snd kv \<in> set (map (\<lambda>c. JStr [c]) str)" by (rule indexed_values)
    then show "depth (snd kv) \<le> 0" by auto
  qed
  then show ?thesis using JStr by simp
qed simp_all

lemma arraySpread_iterable:
  assumes "arraySpread b = Inr xs" "valuesIterable b"
  shows "valuesIterableList xs \<and> Suc (depthList xs) \<le> max 1 (depth b)"
proof (cases b)
  case (JArr ys)
  then show ?thesis using assms by simp
next
  case (JStr str)
  then have xs: "xs = map (\<lambda>c. JStr [c]) str" using assms by simp
  have "valuesIterableList xs" unfolding valuesIterableList_iff xs by auto
  moreover have "depthList xs \<le> 0" unfolding depthList_le_iff xs by auto
  ultimately show ?thesis by simp
qed (use assms in simp_all)

lemma orDefault_iterable:
  "valuesIterableFields cfg \<Longrightarrow> valuesIterable d \<Longrightarrow> valuesIterable (orDefault (getProp cfg t) d)"
  by (auto simp: orDefault_def getProp_iterable split: option.splits)

lemma orDefault_depth: "depth (orDefault (getProp cfg t) d) \<le> max (depth d) (depthFields cfg)"
  using getProp_sub[of cfg t] by (auto simp: orDefault_def split: option.splits)

lemma keyName_not_values: "keyName k \<noteq> ''values''"
  by (cases k) simp_all

lemma import_iterable:
  assumes thr: "\<forall>p. loadConfigFile env p = LoadThrows"
    and ok: "valuesIterable (JObj cfg)"
    and arr: "isArray \<longrightarrow> k = Values_from_glob \<and> t = ''values''"
    and obj: "\<not> isArray \<longrightarrow> t \<noteq> ''values'' \<and> t \<noteq> ''values_from_glob''"
  shows "\<exists>c1 v1 st1. importFromGlobKey env cfg k t isArray visited st = Inr (c1, v1, st1)
     \<and> valuesIterable (JObj c1) \<and> depthFields c1 \<le> depthFields cfg
     \<and> (\<forall>n. n \<noteq> t \<longrightarrow> n \<noteq> keyName k \<longrightarrow> getProp c1 n = getProp cfg n)"
proof (cases "\<exists>globs. getProp cfg (keyName k) = Some (JArr globs)")
  case False
  then show ?thesis using importFromGlobKey_skip[of cfg k env t isArray visited st] ok by auto
next
  case True
  then obtain globs where g: "getProp cfg (keyName k) = Some (JArr globs)" by blast
  from getProp_sub[OF g] have deep: "1 \<le> depthFields cfg" by simp
  from ok have base: "iterableBase cfg" and fields: "valuesIterableFields cfg" by simp_all
  from importFromGlobKey_throws[OF thr g, of st t isArray visited] obtain v1 st1 where run:
    "importFromGlobKey env cfg k t isArray visited st =
         (if isArray then
            (case arraySpread (orDefault (getProp cfg t) (JArr [])) of
               Inl e \<Rightarrow> Inl e
             | Inr xs \<Rightarrow> Inr (deleteProp (keyName k) (setProp t (JArr xs) cfg), v1, st1))
          else
            Inr (deleteProp (keyName k)
                   (setProp t (JObj (objectSpread (orDefault (getProp cfg t) (JObj [])))) cfg),
                 v1, st1))"
    by blast
  have "\<exists>merged. importFromGlobKey env cfg k t isArray visited st
        = Inr (deleteProp (keyName k) (setProp t merged cfg), v1, st1)
      \<and> valuesIterable merged \<and> depth merged \<le> depthFields cfg
      \<and> (isArray \<longrightarrow> Array_isArray merged)"
  proof (cases isArray)
    case True
    with arr g have "getProp cfg ''values_from_glob'' = Some (JArr globs)" by simp
    with base True arr obtain xs where
      xs: "arraySpread (orDefault (getProp cfg t) (JArr [])) = Inr xs"
      by (auto simp: iterableBase_def split: sum.splits)
    have "valuesIterable (orDefault (getProp cfg t) (JArr []))"
      using orDefault_iterable[OF fields] by simp
    from arraySpread_iterable[OF xs this] orDefault_depth[of cfg t "JArr []"] deep
    have "valuesIterable (JArr xs)" "depth (JArr xs) \<le> depthFields cfg" by auto
    then show ?thesis using run True xs by auto
  next
    case False
    let ?b = "orDefault (getProp cfg t) (JObj [])"
    have "valuesIterable ?b" using orDefault_iterable[OF fields] by (simp add: iterableBase_def getProp_def)
    from objectSpread_iterable[OF this] objectSpread_depth[of ?b] orDefault_depth[of cfg t "JObj []"] deep
    have "valuesIterable (JObj (objectSpread ?b))" "depth (JObj (objectSpread ?b)) \<le> depthFields cfg"
      by auto
    then show ?thesis using run False by auto
  qed
  then obtain merged where
    r: "importFromGlobKey env cfg k t isArray visited st
        = Inr (deleteProp (keyName k) (setProp t merged cfg), v1, st1)"
    and m: "valuesIterable merged" "depth merged \<le> depthFields cfg"
      "isArray \<longrightarrow> Array_isArray merged"
    by blast
  let ?c1 = "deleteProp (keyName k) (setProp t merged cfg)"
  have sub: "set ?c1 \<subseteq> insert (t, merged) (set cfg)"
    using set_deleteProp[of "keyName k" "setProp t merged cfg"] set_setProp[of t merged cfg] by blast
  have f1: "valuesIterableFields ?c1"
    unfolding valuesIterableFields_iff using sub fields[unfolded valuesIterableFields_iff] m(1) by auto
  have d1: "depthFields ?c1 \<le> depthFields cfg"
    unfolding depthFields_le_iff using sub depthFields_le_iff[of cfg "depthFields cfg"] m(2) by auto
  have b1: "iterableBase ?c1"
  proof (cases isArray)
    case True
    then show ?thesis using arr by (simp add: iterableBase_def getProp_deleteProp)
  next
    case False
    from obj False have
      "getProp ?c1 ''values'' = getProp cfg ''values''"
      "getProp ?c1 ''values_from_glob'' = getProp cfg ''values_from_glob''
        \<or> getProp ?c1 ''values_from_glob'' = None"
      using keyName_not_values[of k] by (auto simp: getProp_deleteProp getProp_setProp)
    then show ?thesis using base iterableBase_same[of ?c1 cfg] iterableBase_absent[of ?c1] by blast
  qed
  have "\<forall>n. n \<noteq> t \<longrightarrow> n \<noteq> keyName k \<longrightarrow> getProp ?c1 n = getProp cfg n"
    by (simp add: getProp_deleteProp getProp_setProp)
  then show ?thesis using r f1 d1 b1 by auto
qed

lemma importIfTruthy_iterable:
  assumes thr: "\<forall>p. loadConfigFile env p = LoadThrows"
    and ok: "valuesIterable (JObj cfg)"
    and arr: "isArray \<longrightarrow> k = Values_from_glob \<and> t = ''values''"
    and obj: "\<not> isArray \<longrightarrow> t \<noteq> ''values'' \<and> t \<noteq> ''values_from_glob''"
  shows "\<exists>c1 v1 st1. importIfTruthy env cfg k t isArray visited st = Inr (c1, v1, st1)
     \<and> valuesIterable (JObj c1) \<and> depthFields c1 \<le> depthFields cfg"
proof (cases "truthyProp (getProp cfg (keyName k))")
  case True
  then show ?thesis
    using import_iterable[OF thr ok arr obj, where visited = visited and st = st]
    by (auto simp: importIfTruthy_def)
next
  case False
  then show ?thesis using ok by (simp add: importIfTruthy_def)
qed

lemma walker_returns:
  assumes thr: "\<forall>p. loadConfigFile env p = LoadThrows"
  shows "valuesIterable inputs \<Longrightarrow> depth inputs \<le> fuel
           \<Longrightarrow> \<exists>r. processInputsKey env fuel inputs visited st = Inr r"
    and "valuesIterableFields entries \<Longrightarrow> depthFields entries \<le> fuel
           \<Longrightarrow> \<exists>r. processInputEntries env fuel entries visited st = Inr r"
    and "valuesIterable inputValue \<Longrightarrow> depth inputValue \<le> fuel
           \<Longrightarrow> \<exists>r. processInputValue env fuel inputValue visited st = Inr r"
    and "valuesIterableList vals \<Longrightarrow> depthList vals < fuel
           \<Longrightarrow> \<exists>r. processStructureValues env fuel vals visited st = Inr r"
    and "valuesIterable structureValue \<Longrightarrow> depth structureValue < fuel
           \<Longrightarrow> \<exists>r. processStructureValue env fuel structureValue visited st = Inr r"
  using thr
proof (induction env fuel inputs visited st and env fuel entries visited st
         and env fuel inputValue visited st and env fuel vals visited st
         and env fuel structureValue visited st
       rule: processInputsKey_processInputEntries_processInputValue_processStructureValues_processStructureValue.induct)
  case (1 env fuel inputs visited st)
  show ?case
  proof (cases inputs)
    case (JObj entries)
    then obtain r where "processInputEntries env fuel entries visited st = Inr r"
      using "1.IH"[OF JObj] "1.prems" by auto
    then show ?thesis using JObj by (cases r) simp
  qed simp_all
next
  case (2 env fuel visited st)
  then show ?case by simp
next
  case (3 env fuel k inputValue rest visited st)
  obtain iv1 v1 st1 where x: "processInputValue env fuel inputValue visited st = Inr (iv1, v1, st1)"
    using "3.IH"(1) "3.prems" by fastforce
  obtain r where "processInputEntries env fuel rest v1 st1 = Inr r"
    using "3.IH"(2)[OF x refl refl] "3.prems" by auto
  then show ?case using x by (cases r) simp
next
  case (4 env fuel inputValue visited st)
  show ?case
  proof (cases "inputStructures inputValue")
    case None
    then show ?thesis by simp
  next
    case (Some found)
    obtain iv opts structures where found: "found = (iv, opts, structures)" by (cases found) auto
    from Some found have shape: "inputValue = JObj iv" "getProp iv ''options'' = Some (JObj opts)"
      "getProp opts ''structures'' = Some (JObj structures)"
      by (simp_all add: inputStructures_Some)
    have "valuesIterable (JObj opts)"
      using getProp_iterable[OF shape(2)] "4.prems"(1) shape(1) by simp
    then have ok: "valuesIterable (JObj structures)"
      using getProp_iterable[OF shape(3)] by simp
    have deep: "Suc (depthFields structures) \<le> fuel"
      using "4.prems"(2) shape(1) getProp_sub[OF shape(2)] getProp_sub[OF shape(3)] by auto
    obtain s1 vl1 st1 where
      x: "importIfTruthy env structures Values_from_glob ''values'' True (Some (chainOf visited)) st
            = Inr (s1, vl1, st1)"
      and ok1: "valuesIterable (JObj s1)" and deep1: "depthFields s1 \<le> depthFields structures"
      using importIfTruthy_iterable[OF "4.prems"(3) ok, where isArray = True and k = Values_from_glob
          and t = "''values''" and visited = "Some (chainOf visited)" and st = st]
      by auto
    show ?thesis
    proof (cases "arrayProp s1 ''values''")
      case None
      then show ?thesis using Some found x by simp
    next
      case (Some vals)
      then have v: "getProp s1 ''values'' = Some (JArr vals)"
        by (auto simp: arrayProp_def split: option.splits json.splits)
      have p: "valuesIterableList vals" "depthList vals < fuel"
        using getProp_iterable[OF v] getProp_sub[OF v] ok1 deep1 deep by auto
      obtain r where "processStructureValues env fuel vals vl1 st1 = Inr r"
        using "4.IH"[OF \<open>inputStructures inputValue = Some found\<close> found[symmetric] refl x refl refl
            Some p "4.prems"(3)]
        by auto
      then show ?thesis
        using \<open>inputStructures inputValue = Some found\<close> found x Some by (cases r) simp
    qed
  qed
next
  case (5 env fuel visited st)
  then show ?case by simp
next
  case (6 env fuel structureValue rest visited st)
  obtain sv1 v1 st1 where
    x: "processStructureValue env fuel structureValue visited st = Inr (sv1, v1, st1)"
    using "6.IH"(1) "6.prems" by fastforce
  obtain r where "processStructureValues env fuel rest v1 st1 = Inr r"
    using "6.IH"(2)[OF x refl refl] "6.prems" by auto
  then show ?case using x by (cases r) simp
next
  case (7 env structureValue visited st)
  then show ?case by simp
next
  case (8 env fuel structureValue visited st)
  show ?case
  proof (cases structureValue)
    case (JObj sv)
    have ok: "valuesIterable (JObj sv)" and deep: "depthFields sv \<le> fuel"
      using "8.prems" JObj by auto
    obtain sv1 v1 st1 where
      x: "importIfTruthy env sv Inputs_from_glob ''_inputs'' False visited st = Inr (sv1, v1, st1)"
      and ok1: "valuesIterable (JObj sv1)" and deep1: "depthFields sv1 \<le> depthFields sv"
      using importIfTruthy_iterable[OF "8.prems"(3) ok, where isArray = False and k = Inputs_from_glob
          and t = "''_inputs''" and visited = visited and st = st]
      by auto
    show ?thesis
    proof (cases "truthyInputs sv1")
      case None
      then show ?thesis using JObj x by simp
    next
      case (Some inputs)
      then have v: "getProp sv1 ''_inputs'' = Some inputs"
        by (auto simp: truthyInputs_def split: option.splits if_splits)
      have p: "valuesIterable inputs" "depth inputs \<le> fuel"
        using getProp_iterable[OF v] getProp_sub[OF v] ok1 deep1 deep by auto
      obtain r where "processInputsKey env fuel inputs v1 st1 = Inr r"
        using "8.IH"[OF JObj x refl refl Some p "8.prems"(3)] by auto
      then show ?thesis using JObj x Some by (cases r) simp
    qed
  qed simp_all
qed

lemma forEachValue_returns:
  "(\<And>v s'. v \<in> snd ` set kvs \<Longrightarrow> \<exists>r. f v s' = Inr r) \<Longrightarrow> \<exists>r. forEachValue f kvs s = Inr r"
proof (induction kvs arbitrary: s)
  case Nil
  then show ?case by simp
next
  case (Cons kv kvs)
  obtain k v where kv: "kv = (k, v)" by (cases kv) auto
  obtain v1 s1 where a: "f v s = Inr (v1, s1)" using Cons.prems[of v s] kv by fastforce
  obtain r where "forEachValue f kvs s1 = Inr r" using Cons.IH[of s1] Cons.prems by auto
  then show ?case using kv a by (cases r) simp
qed

lemma fields_iterable:
  "v \<in> snd ` set kvs \<Longrightarrow> valuesIterableFields kvs \<Longrightarrow> valuesIterable v"
  by (auto simp: valuesIterableFields_iff)

lemma processStructure_returns:
  assumes thr: "\<forall>p. loadConfigFile env p = LoadThrows"
    and ok: "valuesIterable structure" and deep: "depth structure \<le> fuel"
  shows "\<exists>r. processStructure env fuel structure (visited, st) = Inr r"
proof (cases "structure")
  case (JObj sv)
  obtain sv1 vl1 st1 where
    x: "importFromGlobKey env sv Values_from_glob ''values'' True (Some (chainOf visited)) st
          = Inr (sv1, vl1, st1)"
    and ok1: "valuesIterable (JObj sv1)" and deep1: "depthFields sv1 \<le> depthFields sv"
    using import_iterable[OF thr ok[unfolded JObj], where isArray = True and k = Values_from_glob
        and t = "''values''" and visited = "Some (chainOf visited)" and st = st]
    by auto
  show ?thesis
  proof (cases "arrayProp sv1 ''values''")
    case None
    then show ?thesis using JObj x by (simp add: processStructure_def)
  next
    case (Some vals)
    then have v: "getProp sv1 ''values'' = Some (JArr vals)"
      by (auto simp: arrayProp_def split: option.splits json.splits)
    have p: "valuesIterableList vals" "depthList vals < fuel"
      using getProp_iterable[OF v] getProp_sub[OF v] ok1 deep1 deep JObj by auto
    obtain r where "processStructureValues env fuel vals vl1 st1 = Inr r"
      using walker_returns(4)[OF thr p] by blast
    then show ?thesis using JObj x Some by (cases r) (simp add: processStructure_def)
  qed
qed (simp_all add: processStructure_def)

lemma processStructuresKey_returns:
  assumes thr: "\<forall>p. loadConfigFile env p = LoadThrows"
    and ok: "valuesIterable structures" and deep: "depth structures \<le> fuel"
  shows "\<exists>r. processStructuresKey env fuel structures visited st = Inr r"
proof (cases structures)
  case (JObj entries)
  have "\<exists>r. forEachValue (processStructure env fuel) entries (visited, st) = Inr r"
  proof (rule forEachValue_returns)
    fix v and s' :: "string list option \<times> loader"
    assume m: "v \<in> snd ` set entries"
    have "valuesIterable v" "depth v \<le> fuel"
      using fields_iterable[OF m] fields_sub[OF m] ok deep JObj by auto
    then show "\<exists>r. processStructure env fuel v s' = Inr r"
      using processStructure_returns[OF thr] by (cases s') simp
  qed
  then obtain r where "forEachValue (processStructure env fuel) entries (visited, st) = Inr r" ..
  then show ?thesis using JObj by (cases r) (simp add: processStructuresKey_def)
qed (simp_all add: processStructuresKey_def)

lemma importKey_iterable:
  assumes thr: "\<forall>p. loadConfigFile env p = LoadThrows"
    and ok: "valuesIterable (JObj cfg)"
    and t: "t \<noteq> ''values''" "t \<noteq> ''values_from_glob''"
  shows "\<exists>c1 st1. importKey env k t cfg st = Inr (c1, st1)
     \<and> valuesIterable (JObj c1) \<and> depthFields c1 \<le> depthFields cfg
     \<and> (\<forall>n. n \<noteq> t \<longrightarrow> n \<noteq> keyName k \<longrightarrow> getProp c1 n = getProp cfg n)"
  using import_iterable[OF thr ok, where isArray = False and k = k and t = t and visited = None
      and st = st] t
  by (auto simp: importKey_def)

lemma importRootKeys_iterable:
  assumes thr: "\<forall>p. loadConfigFile env p = LoadThrows"
  shows "valuesIterable (JObj cfg) \<Longrightarrow> depthFields cfg \<le> fuel
     \<Longrightarrow> \<forall>key \<in> set keys. snd key \<noteq> ''values'' \<and> snd key \<noteq> ''values_from_glob''
     \<Longrightarrow> \<exists>c1 st1. importRootKeys env keys cfg st = Inr (c1, st1)
           \<and> valuesIterable (JObj c1) \<and> depthFields c1 \<le> fuel"
proof (induction keys arbitrary: cfg st)
  case Nil
  then show ?case by simp
next
  case (Cons key keys)
  obtain k t where key: "key = (k, t)" by (cases key) auto
  then have t: "t \<noteq> ''values''" "t \<noteq> ''values_from_glob''" using Cons.prems(3) by auto
  obtain c1 st1 where a: "importKey env k t cfg st = Inr (c1, st1)"
    and ok1: "valuesIterable (JObj c1)" and deep1: "depthFields c1 \<le> depthFields cfg"
    using importKey_iterable[OF thr Cons.prems(1) t, where k = k and st = st] by auto
  have "\<exists>c2 st2. importRootKeys env keys c1 st1 = Inr (c2, st2)
           \<and> valuesIterable (JObj c2) \<and> depthFields c2 \<le> fuel"
    using Cons.IH[OF ok1] deep1 Cons.prems(2,3) by auto
  then show ?case using key a by simp
qed

lemma processInputsOf_returns:
  assumes thr: "\<forall>p. loadConfigFile env p = LoadThrows"
    and ok: "\<forall>v. getProp cfg ''_inputs'' = Some v \<longrightarrow> valuesIterable v \<and> depth v \<le> fuel"
  shows "\<exists>c1 st1. processInputsOf env fuel cfg st = Inr (c1, st1)
     \<and> (\<forall>n. n \<noteq> ''_inputs'' \<longrightarrow> getProp c1 n = getProp cfg n)"
proof (cases "getProp cfg ''_inputs''")
  case None
  then show ?thesis by (simp add: processInputsOf_def)
next
  case (Some inputs)
  from ok[rule_format, OF Some] walker_returns(1)[OF thr] obtain r where
    "processInputsKey env fuel inputs None st = Inr r" by blast
  then show ?thesis using Some by (cases r) (simp add: processInputsOf_def getProp_setProp)
qed

lemma processStructuresOf_returns:
  assumes thr: "\<forall>p. loadConfigFile env p = LoadThrows"
    and ok: "\<forall>v. getProp cfg ''_structures'' = Some v \<longrightarrow> valuesIterable v \<and> depth v \<le> fuel"
  shows "\<exists>c1 st1. processStructuresOf env fuel cfg st = Inr (c1, st1)
     \<and> (\<forall>n. n \<noteq> ''_structures'' \<longrightarrow> getProp c1 n = getProp cfg n)"
proof (cases "getProp cfg ''_structures''")
  case None
  then show ?thesis by (simp add: processStructuresOf_def)
next
  case (Some structures)
  from ok[rule_format, OF Some] processStructuresKey_returns[OF thr] obtain r where
    "processStructuresKey env fuel structures None st = Inr r" by blast
  then show ?thesis using Some by (cases r) (simp add: processStructuresOf_def getProp_setProp)
qed

lemma property_fits:
  "valuesIterable (JObj cfg) \<Longrightarrow> depthFields cfg \<le> fuel \<Longrightarrow> getProp cfg n = Some v
     \<Longrightarrow> valuesIterable v \<and> depth v \<le> fuel"
  using getProp_iterable[of cfg n v] getProp_sub[of cfg n v] by auto

lemma importInputsAndStructures_returns:
  assumes thr: "\<forall>p. loadConfigFile env p = LoadThrows"
    and ok: "valuesIterable (JObj cfg)" and deep: "depthFields cfg \<le> fuel"
  shows "\<exists>c4 st4. importInputsAndStructures env fuel cfg st = Inr (c4, st4)
     \<and> (\<forall>n. n \<notin> {''_inputs'', ''_structures'', ''_inputs_from_glob'', ''_structures_from_glob''}
            \<longrightarrow> getProp c4 n = getProp cfg n)"
proof -
  obtain c1 st1 where a: "importKey env Inputs_from_glob ''_inputs'' cfg st = Inr (c1, st1)"
    and ok1: "valuesIterable (JObj c1)" and deep1: "depthFields c1 \<le> depthFields cfg"
    and same1: "\<forall>n. n \<noteq> ''_inputs'' \<longrightarrow> n \<noteq> keyName Inputs_from_glob \<longrightarrow> getProp c1 n = getProp cfg n"
    using importKey_iterable[OF thr ok, where t = "''_inputs''" and k = Inputs_from_glob and st = st] by auto
  obtain c2 st2 where b: "importKey env Structures_from_glob ''_structures'' c1 st1 = Inr (c2, st2)"
    and ok2: "valuesIterable (JObj c2)" and deep2: "depthFields c2 \<le> depthFields c1"
    and same2: "\<forall>n. n \<noteq> ''_structures'' \<longrightarrow> n \<noteq> keyName Structures_from_glob
                  \<longrightarrow> getProp c2 n = getProp c1 n"
    using importKey_iterable[OF thr ok1, where t = "''_structures''" and k = Structures_from_glob
        and st = st1] by auto
  have deep2': "depthFields c2 \<le> fuel" using deep deep1 deep2 by simp
  have "\<forall>v. getProp c2 ''_inputs'' = Some v \<longrightarrow> valuesIterable v \<and> depth v \<le> fuel"
    using property_fits[OF ok2 deep2'] by blast
  from processInputsOf_returns[OF thr this, where st = st2] obtain c3 st3 where
    c: "processInputsOf env fuel c2 st2 = Inr (c3, st3)"
    and same3: "\<forall>n. n \<noteq> ''_inputs'' \<longrightarrow> getProp c3 n = getProp c2 n"
    by auto
  have "\<forall>v. getProp c3 ''_structures'' = Some v \<longrightarrow> valuesIterable v \<and> depth v \<le> fuel"
    using same3 property_fits[OF ok2 deep2'] by simp
  from processStructuresOf_returns[OF thr this, where st = st3] obtain c4 st4 where
    d: "processStructuresOf env fuel c3 st3 = Inr (c4, st4)"
    and same4: "\<forall>n. n \<noteq> ''_structures'' \<longrightarrow> getProp c4 n = getProp c3 n"
    by auto
  have "importInputsAndStructures env fuel cfg st = Inr (c4, st4)"
    using a b c d by (simp add: importInputsAndStructures_def)
  moreover have "\<forall>n. n \<notin> {''_inputs'', ''_structures'', ''_inputs_from_glob'', ''_structures_from_glob''}
            \<longrightarrow> getProp c4 n = getProp cfg n"
    using same1 same2 same3 same4 by simp
  ultimately show ?thesis by blast
qed

lemma processSchema_returns:
  assumes thr: "\<forall>p. loadConfigFile env p = LoadThrows"
    and ok: "valuesIterable v" and deep: "depth v \<le> fuel"
  shows "\<exists>r. processSchema env fuel v st = Inr r"
proof (cases v)
  case (JObj sv)
  then have "valuesIterable (JObj sv)" "depthFields sv \<le> fuel" using ok deep by auto
  from importInputsAndStructures_returns[OF thr this, where st = st] obtain r where
    "importInputsAndStructures env fuel sv st = Inr r" by blast
  then show ?thesis using JObj by (cases r) (simp add: processSchema_def)
qed (simp_all add: processSchema_def)

lemma processSnippet_returns:
  assumes thr: "\<forall>p. loadConfigFile env p = LoadThrows"
    and ok: "valuesIterable v" and deep: "depth v \<le> fuel"
  shows "\<exists>r. processSnippet env fuel v st = Inr r"
proof (cases v)
  case (JObj sc)
  then have "valuesIterable (JObj sc)" "depthFields sc \<le> fuel" using ok deep by auto
  from importInputsAndStructures_returns[OF thr this, where st = st] obtain r where
    "importInputsAndStructures env fuel sc st = Inr r" by blast
  then show ?thesis using JObj by (cases r) (simp add: processSnippet_def)
qed (simp_all add: processSnippet_def)

lemma processCollection_returns:
  assumes thr: "\<forall>p. loadConfigFile env p = LoadThrows"
    and ok: "valuesIterable v" and deep: "depth v \<le> fuel"
  shows "\<exists>r. processCollection env fuel v st = Inr r"
proof (cases v)
  case (JObj c)
  then have okc: "valuesIterable (JObj c)" and deepc: "depthFields c \<le> fuel" using ok deep by auto
  define step1 where "step1 = (if getProp c ''schemas_from_glob'' \<noteq> None then
                     importKey env Schemas_from_glob ''schemas'' c st
                   else Inr (c, st))"
  have whole: "processCollection env fuel v st =
      andThen step1
        (\<lambda>(c1, st1).
          andThen (importInputsAndStructures env fuel c1 st1)
            (\<lambda>(c2, st2).
               (case getProp c2 ''schemas'' of
                  Some (JObj schemas) \<Rightarrow>
                    andThen (forEachValue (processSchema env fuel) schemas st2)
                      (\<lambda>(schemas1, st3). Inr (JObj (setProp ''schemas'' (JObj schemas1) c2), st3))
                | _ \<Rightarrow> Inr (JObj c2, st2))))"
    unfolding step1_def processCollection_def JObj by simp
  have "\<exists>c1 st1. step1 = Inr (c1, st1) \<and> valuesIterable (JObj c1) \<and> depthFields c1 \<le> fuel"
  proof (cases "getProp c ''schemas_from_glob'' \<noteq> None")
    case True
    then have "step1 = importKey env Schemas_from_glob ''schemas'' c st" by (simp add: step1_def)
    then show ?thesis
      using importKey_iterable[OF thr okc, where t = "''schemas''" and k = Schemas_from_glob
          and st = st] deepc
      by fastforce
  next
    case False
    then have "step1 = Inr (c, st)" by (simp add: step1_def)
    then show ?thesis using okc deepc by blast
  qed
  then obtain c1 st1 where a: "step1 = Inr (c1, st1)"
    and ok1: "valuesIterable (JObj c1)" and deep1: "depthFields c1 \<le> fuel"
    by blast
  from importInputsAndStructures_returns[OF thr ok1 deep1, where st = st1] obtain c2 st2 where
    b: "importInputsAndStructures env fuel c1 st1 = Inr (c2, st2)"
    and same: "getProp c2 ''schemas'' = getProp c1 ''schemas''"
    by auto
  show ?thesis
  proof (cases "\<exists>schemas. getProp c2 ''schemas'' = Some (JObj schemas)")
    case True
    then obtain schemas where sc: "getProp c2 ''schemas'' = Some (JObj schemas)" by blast
    from property_fits[OF ok1 deep1 sc[unfolded same]]
    have fit: "valuesIterableFields schemas" "depthFields schemas \<le> fuel" by auto
    have "\<exists>r. forEachValue (processSchema env fuel) schemas st2 = Inr r"
    proof (rule forEachValue_returns)
      fix w and s' :: loader
      assume m: "w \<in> snd ` set schemas"
      have "valuesIterable w" "depth w \<le> fuel"
        using fields_iterable[OF m] fields_sub[OF m] fit by auto
      then show "\<exists>r. processSchema env fuel w s' = Inr r" by (rule processSchema_returns[OF thr])
    qed
    then obtain r where "forEachValue (processSchema env fuel) schemas st2 = Inr r" ..
    then show ?thesis unfolding whole using a b sc by (cases r) simp
  next
    case False
    then show ?thesis unfolding whole using a b by (auto split: option.splits json.splits)
  qed
qed (simp_all add: processCollection_def)

lemma processCollections_returns:
  assumes thr: "\<forall>p. loadConfigFile env p = LoadThrows"
    and ok: "\<forall>v. getProp cfg ''collections_config'' = Some v \<longrightarrow> valuesIterable v \<and> depth v \<le> fuel"
  shows "\<exists>c1 st1. processCollections env fuel cfg st = Inr (c1, st1)
     \<and> (\<forall>n. n \<noteq> ''collections_config'' \<longrightarrow> getProp c1 n = getProp cfg n)"
proof (cases "\<exists>collections. getProp cfg ''collections_config'' = Some (JObj collections)")
  case True
  then obtain collections where cc: "getProp cfg ''collections_config'' = Some (JObj collections)"
    by blast
  from ok[rule_format, OF cc]
  have fit: "valuesIterableFields collections" "depthFields collections \<le> fuel" by auto
  have "\<exists>r. forEachValue (processCollection env fuel) collections st = Inr r"
  proof (rule forEachValue_returns)
    fix w and s' :: loader
    assume m: "w \<in> snd ` set collections"
    have "valuesIterable w" "depth w \<le> fuel"
      using fields_iterable[OF m] fields_sub[OF m] fit by auto
    then show "\<exists>r. processCollection env fuel w s' = Inr r"
      by (rule processCollection_returns[OF thr])
  qed
  then obtain r where "forEachValue (processCollection env fuel) collections st = Inr r" ..
  then show ?thesis using cc by (cases r) (simp add: processCollections_def getProp_setProp)
next
  case False
  then show ?thesis by (auto simp: processCollections_def split: option.splits json.splits)
qed

lemma processSnippets_returns:
  assumes thr: "\<forall>p. loadConfigFile env p = LoadThrows"
    and ok: "\<forall>v. getProp cfg ''_snippets'' = Some v \<longrightarrow> valuesIterable v \<and> depth v \<le> fuel"
  shows "\<exists>r. processSnippets env fuel cfg st = Inr r"
proof (cases "\<exists>snippets. getProp cfg ''_snippets'' = Some (JObj snippets)")
  case True
  then obtain snippets where sn: "getProp cfg ''_snippets'' = Some (JObj snippets)" by blast
  from ok[rule_format, OF sn]
  have fit: "valuesIterable (JObj snippets)" "depthFields snippets \<le> fuel" by auto
  obtain s1 st1 where a: "importKey env Inputs_from_glob ''_inputs'' snippets st = Inr (s1, st1)"
    and ok1: "valuesIterable (JObj s1)" and deep1: "depthFields s1 \<le> depthFields snippets"
    using importKey_iterable[OF thr fit(1), where t = "''_inputs''" and k = Inputs_from_glob
        and st = st]
    by auto
  have "\<exists>r. forEachValue (processSnippet env fuel) s1 st1 = Inr r"
  proof (rule forEachValue_returns)
    fix w and s' :: loader
    assume m: "w \<in> snd ` set s1"
    have "valuesIterable w" "depth w \<le> fuel"
      using fields_iterable[OF m] fields_sub[OF m] ok1 deep1 fit(2) by auto
    then show "\<exists>r. processSnippet env fuel w s' = Inr r" by (rule processSnippet_returns[OF thr])
  qed
  then obtain r where "forEachValue (processSnippet env fuel) s1 st1 = Inr r" ..
  then show ?thesis using sn a by (cases r) (simp add: processSnippets_def)
next
  case False
  then show ?thesis by (auto simp: processSnippets_def split: option.splits json.splits)
qed

lemma loaderMergeConfiguration_returns:
  assumes thr: "\<forall>p. loadConfigFile env p = LoadThrows"
    and ok: "valuesIterable (JObj cfg)" and deep: "depthFields cfg \<le> fuel"
  shows "\<exists>r. loaderMergeConfiguration env fuel cfg st = Inr r"
proof -
  have keys: "\<forall>key \<in> set rootKeys. snd key \<noteq> ''values'' \<and> snd key \<noteq> ''values_from_glob''"
    by (simp add: rootKeys_def)
  from importRootKeys_iterable[OF thr ok deep keys] obtain c1 st1 where
    a: "importRootKeys env rootKeys cfg (st\<lparr>warnings := emptyWarnings, globPatterns := []\<rparr>)
          = Inr (c1, st1)"
    and ok1: "valuesIterable (JObj c1)" and deep1: "depthFields c1 \<le> fuel"
    by blast
  note fit = property_fits[OF ok1 deep1]
  have "\<forall>v. getProp c1 ''_inputs'' = Some v \<longrightarrow> valuesIterable v \<and> depth v \<le> fuel"
    using fit by blast
  from processInputsOf_returns[OF thr this, where st = st1] obtain c2 st2 where
    b: "processInputsOf env fuel c1 st1 = Inr (c2, st2)"
    and same2: "\<forall>n. n \<noteq> ''_inputs'' \<longrightarrow> getProp c2 n = getProp c1 n"
    by auto
  have "\<forall>v. getProp c2 ''_structures'' = Some v \<longrightarrow> valuesIterable v \<and> depth v \<le> fuel"
    using fit same2 by simp
  from processStructuresOf_returns[OF thr this, where st = st2] obtain c3 st3 where
    c: "processStructuresOf env fuel c2 st2 = Inr (c3, st3)"
    and same3: "\<forall>n. n \<noteq> ''_structures'' \<longrightarrow> getProp c3 n = getProp c2 n"
    by auto
  have "\<forall>v. getProp c3 ''collections_config'' = Some v \<longrightarrow> valuesIterable v \<and> depth v \<le> fuel"
    using fit same2 same3 by simp
  from processCollections_returns[OF thr this, where st = st3] obtain c4 st4 where
    d: "processCollections env fuel c3 st3 = Inr (c4, st4)"
    and same4: "\<forall>n. n \<noteq> ''collections_config'' \<longrightarrow> getProp c4 n = getProp c3 n"
    by auto
  have "\<forall>v. getProp c4 ''_snippets'' = Some v \<longrightarrow> valuesIterable v \<and> depth v \<le> fuel"
    using fit same2 same3 same4 by simp
  from processSnippets_returns[OF thr this, where st = st4] obtain r where
    e: "processSnippets env fuel c4 st4 = Inr r" by blast
  show ?thesis using a b c d e by (simp add: loaderMergeConfiguration_def)
qed

lemma reflp_sameArrayValues:
  "reflp (\<lambda>s s'. arrayValues (warnings s') = arrayValues (warnings (s :: loader)))"
  by (simp add: reflp_def)

lemma transp_sameArrayValues:
  "transp (\<lambda>s s'. arrayValues (warnings s') = arrayValues (warnings (s :: loader)))"
  by (simp add: transp_def)

lemma mergeConfiguration_throws:
  assumes thr: "\<forall>p. loadConfigFile env p = LoadThrows"
    and ok: "valuesIterable (JObj cfg)" and deep: "depthFields cfg \<le> fuel"
  shows "\<exists>result. mergeConfiguration env fuel cfg = Inr result \<and> arrayValues (warnings result) = []"
proof -
  from loaderMergeConfiguration_returns[OF thr ok deep] obtain c st where
    run: "loaderMergeConfiguration env fuel cfg newLoader = Inr (c, st)" by fastforce
  from loaderMergeConfiguration_respects[OF reflp_sameArrayValues transp_sameArrayValues
      importRespects_throws[OF thr] run]
  have "arrayValues (warnings st) = []" by (simp add: emptyWarnings_def)
  then show ?thesis
    using run by (simp add: mergeConfiguration_def removeDuplicateWarnings_def)
qed

subsection \<open>The two models on the examples\<close>

text \<open>
  On the examples the run on a store and the run on values end alike: with the same fault,
  or with the same merged tree, diagnostics, ownership, patterns and collaborator calls.
\<close>

lemma agree_negationExample: "agree negationExampleEnv 1 negationExampleConfig"
  by code_simp

lemma agree_shared: "agree sharedEnv 1 sharedConfig"
  by code_simp

lemma agree_chained: "agree chainedEnv 3 chainedConfig"
  by code_simp

lemma agree_hero: "agree heroEnv 2 heroConfig"
  by code_simp

lemma agree_hero_shallow: "agree heroEnv 0 heroConfig"
  by code_simp

lemma agree_twoChains: "agree twoChainsEnv 2 twoChainsConfig"
  by code_simp

lemma agree_array: "agree arrayEnv 1 arrayConfig"
  by code_simp

lemma agree_broken: "agree brokenEnv 1 brokenConfig"
  by code_simp

lemma agree_brokenChain: "agree brokenEnv 1 brokenChainConfig"
  by code_simp

lemma agree_scalarValues: "agree brokenEnv 1 scalarValuesConfig"
  by code_simp

lemma agree_overlap: "agree overlapEnv 1 overlapConfig"
  by code_simp

lemma agree_mutation: "agree mutationEnv 1 mutationConfig"
  by code_simp

subsection \<open>Actions that keep the cells below an address\<close>

lemma keeps_returnS: "Q x \<Longrightarrow> keeps F Q (returnS x)"
  by (simp add: keeps_def returnS_def)

lemma keeps_raiseS: "keeps F Q (raiseS e)"
  by (simp add: keeps_def raiseS_def)

lemma keeps_bindS:
  assumes "keeps F P m" and "\<And>x. P x \<Longrightarrow> keeps F Q (f x)"
  shows "keeps F Q (bindS m f)"
  unfolding keeps_def
proof (intro allI impI)
  fix w :: world
  assume s: "separate F (heap w)"
  obtain r w1 where m: "m w = (r, w1)" by (cases "m w") auto
  from assms(1) s m have a: "separate F (heap w1)" "take F (heap w1) = take F (heap w)"
    "\<forall>x. r = Inr x \<longrightarrow> P x"
    by (auto simp: keeps_def)
  show "separate F (heap (snd (bindS m f w))) \<and>
         take F (heap (snd (bindS m f w))) = take F (heap w) \<and>
         (\<forall>x. fst (bindS m f w) = Inr x \<longrightarrow> Q x)"
  proof (cases r)
    case (Inl e)
    then show ?thesis using m a by (simp add: bindS_def)
  next
    case (Inr x)
    then have "keeps F Q (f x)" using assms(2) a(3) by simp
    then show ?thesis using m a Inr by (simp add: bindS_def keeps_def)
  qed
qed

lemma keeps_weaken: "keeps F P m \<Longrightarrow> (\<And>x. P x \<Longrightarrow> Q x) \<Longrightarrow> keeps F Q m"
  by (simp add: keeps_def)

lemma keeps_readS: "(\<And>h. separate F h \<Longrightarrow> Q (f h)) \<Longrightarrow> keeps F Q (readS f)"
  by (simp add: keeps_def readS_def)

lemma keeps_loaderS: "(\<And>x. Q x) \<Longrightarrow> keeps F Q (loaderS f)"
  by (simp add: keeps_def loaderS_def split: prod.splits)

lemma separate_append:
  "separate F h \<Longrightarrow> youngCell F c \<Longrightarrow> separate F (h @ [c])"
  by (auto simp: separate_def nth_append less_Suc_eq)

lemma separate_update:
  assumes "separate F h" "F \<le> a" "youngCell F c"
  shows "separate F (h[a := c])"
proof (cases "a < length h")
  case True
  then show ?thesis using assms by (auto simp: separate_def nth_list_update)
next
  case False
  then have "h[a := c] = h" by (simp add: list_update_beyond)
  then show ?thesis using assms by simp
qed

lemma keeps_alloc:
  assumes "youngCell F c"
  shows "keeps F (young F) (alloc c)"
  unfolding keeps_def
proof (intro allI impI)
  fix w :: world
  assume s: "separate F (heap w)"
  then have "F \<le> length (heap w)" by (simp add: separate_def)
  then show "separate F (heap (snd (alloc c w))) \<and>
         take F (heap (snd (alloc c w))) = take F (heap w) \<and>
         (\<forall>x. fst (alloc c w) = Inr x \<longrightarrow> young F x)"
    using separate_append[OF s assms] by (simp add: alloc_def young_def)
qed

lemma separate_cell:
  "separate F h \<Longrightarrow> young F v \<Longrightarrow> cellAt h v = Some c \<Longrightarrow> youngCell F c"
  by (auto simp: separate_def young_def cellAt_def split: jsval.splits if_splits)

lemma young_objFields:
  "separate F h \<Longrightarrow> young F v \<Longrightarrow> objFields h v = Some kvs \<Longrightarrow> youngCell F (ObjCell kvs)"
  using separate_cell[of F h v] by (auto simp: objFields_def split: option.splits cell.splits)

lemma young_arrElems:
  "separate F h \<Longrightarrow> young F v \<Longrightarrow> arrElems h v = Some vs \<Longrightarrow> youngCell F (ArrCell vs)"
  using separate_cell[of F h v] by (auto simp: arrElems_def split: option.splits cell.splits)

lemma youngCell_Obj: "youngCell F (ObjCell kvs) \<longleftrightarrow> (\<forall>kv \<in> set kvs. young F (snd kv))"
  by (auto simp: youngCell_def cellVals_def)

lemma youngCell_Arr: "youngCell F (ArrCell vs) \<longleftrightarrow> (\<forall>v \<in> set vs. young F v)"
  by (simp add: youngCell_def cellVals_def)

lemma youngCell_setProp:
  "youngCell F (ObjCell kvs) \<Longrightarrow> young F v \<Longrightarrow> youngCell F (ObjCell (setProp k v kvs))"
  unfolding youngCell_Obj using set_setProp[of k v kvs] by auto

lemma youngCell_deleteProp:
  "youngCell F (ObjCell kvs) \<Longrightarrow> youngCell F (ObjCell (deleteProp k kvs))"
  unfolding youngCell_Obj using set_deleteProp[of k kvs] by auto

lemma young_getProp:
  "youngCell F (ObjCell kvs) \<Longrightarrow> getProp kvs k = Some v \<Longrightarrow> young F v"
  unfolding youngCell_Obj using getProp_mem[of kvs k v] by auto

lemma young_propOf:
  "separate F h \<Longrightarrow> young F v \<Longrightarrow> propOf h v k = Some x \<Longrightarrow> young F x"
  using young_objFields[of F h v] young_getProp[of F _ k x]
  by (auto simp: propOf_def split: option.splits)

lemma updateObj_keeps:
  assumes "separate F h" "young F obj"
    and "\<And>kvs. youngCell F (ObjCell kvs) \<Longrightarrow> youngCell F (ObjCell (f kvs))"
  shows "separate F (updateObj f obj h) \<and> take F (updateObj f obj h) = take F h"
proof (cases "\<exists>a kvs. obj = VRef a \<and> cellAt h obj = Some (ObjCell kvs)")
  case True
  then obtain a kvs where o: "obj = VRef a" "cellAt h obj = Some (ObjCell kvs)" by blast
  then have a: "F \<le> a" using assms(2) by (simp add: young_def)
  have "youngCell F (ObjCell (f kvs))" using separate_cell[OF assms(1,2) o(2)] assms(3) by simp
  then show ?thesis using o a assms(1) by (simp add: updateObj_def separate_update)
next
  case False
  then have "updateObj f obj h = h"
    by (auto simp: updateObj_def split: jsval.splits option.splits cell.splits)
  then show ?thesis using assms(1) by simp
qed

lemma keeps_setField:
  "young F obj \<Longrightarrow> young F v \<Longrightarrow> keeps F (\<lambda>u. True) (setField obj k v)"
  using updateObj_keeps[of F _ obj "setProp k v"]
  by (simp add: keeps_def setField_def youngCell_setProp)

lemma keeps_deleteField: "young F obj \<Longrightarrow> keeps F (\<lambda>u. True) (deleteField obj k)"
  using updateObj_keeps[of F _ obj "deleteProp k"]
  by (simp add: keeps_def deleteField_def youngCell_deleteProp)

lemma keeps_pushElem:
  assumes "young F arr" "young F v"
  shows "keeps F (\<lambda>u. True) (pushElem arr v)"
  unfolding keeps_def
proof (intro allI impI)
  fix w :: world
  assume s: "separate F (heap w)"
  show "separate F (heap (snd (pushElem arr v w))) \<and>
         take F (heap (snd (pushElem arr v w))) = take F (heap w) \<and>
         (\<forall>x. fst (pushElem arr v w) = Inr x \<longrightarrow> True)"
  proof (cases "\<exists>a vs. arr = VRef a \<and> cellAt (heap w) arr = Some (ArrCell vs)")
    case True
    then obtain a vs where o: "arr = VRef a" "cellAt (heap w) arr = Some (ArrCell vs)" by blast
    then have a: "F \<le> a" using assms(1) by (simp add: young_def)
    have "youngCell F (ArrCell (vs @ [v]))"
      using separate_cell[OF s assms(1) o(2)] assms(2) by (auto simp: youngCell_Arr)
    then show ?thesis using o a s by (simp add: pushElem_def separate_update)
  next
    case False
    then have "heap (snd (pushElem arr v w)) = heap w"
      by (auto simp: pushElem_def split: jsval.splits option.splits cell.splits)
    then show ?thesis using s by simp
  qed
qed

lemma young_mono: "F \<le> G \<Longrightarrow> young G v \<Longrightarrow> young F v"
  by (auto simp: young_def split: jsval.splits)

lemma youngCell_mono: "F \<le> G \<Longrightarrow> youngCell G c \<Longrightarrow> youngCell F c"
  using young_mono by (auto simp: youngCell_def)

lemma parse_extends:
  "parse j h = (v, h1) \<Longrightarrow>
     \<exists>new. h1 = h @ new \<and> (\<forall>c \<in> set new. youngCell (length h) c) \<and> young (length h) v"
  "parseList js h = (vs, h1) \<Longrightarrow>
     \<exists>new. h1 = h @ new \<and> (\<forall>c \<in> set new. youngCell (length h) c)
       \<and> (\<forall>x \<in> set vs. young (length h) x)"
  "parseFields kvs h = (fs, h1) \<Longrightarrow>
     \<exists>new. h1 = h @ new \<and> (\<forall>c \<in> set new. youngCell (length h) c)
       \<and> (\<forall>kv \<in> set fs. young (length h) (snd kv))"
proof (induction j h and js h and kvs h arbitrary: v h1 and vs h1 and fs h1
       rule: parse_parseList_parseFields.induct)
  case (5 xs h)
  obtain vs h2 where p: "parseList xs h = (vs, h2)" by (cases "parseList xs h") auto
  from "5.IH"[OF p] obtain new where
    n: "h2 = h @ new" "\<forall>c \<in> set new. youngCell (length h) c" "\<forall>x \<in> set vs. young (length h) x"
    by blast
  have "h1 = h @ (new @ [ArrCell vs])" "v = VRef (length h2)" using "5.prems" p n(1) by auto
  moreover have "youngCell (length h) (ArrCell vs)" using n(3) by (simp add: youngCell_Arr)
  ultimately show ?case using n by (auto simp: young_def)
next
  case (6 kvs h)
  obtain fs h2 where p: "parseFields kvs h = (fs, h2)" by (cases "parseFields kvs h") auto
  from "6.IH"[OF p] obtain new where
    n: "h2 = h @ new" "\<forall>c \<in> set new. youngCell (length h) c"
      "\<forall>kv \<in> set fs. young (length h) (snd kv)"
    by blast
  have "h1 = h @ (new @ [ObjCell fs])" "v = VRef (length h2)" using "6.prems" p n(1) by auto
  moreover have "youngCell (length h) (ObjCell fs)" using n(3) by (simp add: youngCell_Obj)
  ultimately show ?case using n by (auto simp: young_def)
next
  case (8 x xs h)
  obtain v ha where p: "parse x h = (v, ha)" by (cases "parse x h") auto
  obtain vs' hb where q: "parseList xs ha = (vs', hb)" by (cases "parseList xs ha") auto
  from "8.IH"(1)[OF p] obtain n1 where
    a: "ha = h @ n1" "\<forall>c \<in> set n1. youngCell (length h) c" "young (length h) v" by blast
  from "8.IH"(2)[OF p[symmetric] q] obtain n2 where
    b: "hb = ha @ n2" "\<forall>c \<in> set n2. youngCell (length ha) c" "\<forall>x \<in> set vs'. young (length ha) x"
    by blast
  have le: "length h \<le> length ha" using a(1) by simp
  have "h1 = h @ (n1 @ n2)" "vs = v # vs'" using "8.prems" p q a(1) b(1) by auto
  then show ?case
    using a b young_mono[OF le] youngCell_mono[OF le] by auto
next
  case (10 k x kvs h)
  obtain v ha where p: "parse x h = (v, ha)" by (cases "parse x h") auto
  obtain fs' hb where q: "parseFields kvs ha = (fs', hb)" by (cases "parseFields kvs ha") auto
  from "10.IH"(1)[OF p] obtain n1 where
    a: "ha = h @ n1" "\<forall>c \<in> set n1. youngCell (length h) c" "young (length h) v" by blast
  from "10.IH"(2)[OF p[symmetric] q] obtain n2 where
    b: "hb = ha @ n2" "\<forall>c \<in> set n2. youngCell (length ha) c"
      "\<forall>kv \<in> set fs'. young (length ha) (snd kv)"
    by blast
  have le: "length h \<le> length ha" using a(1) by simp
  have "h1 = h @ (n1 @ n2)" "fs = (k, v) # fs'" using "10.prems" p q a(1) b(1) by auto
  then show ?case
    using a b young_mono[OF le] youngCell_mono[OF le] by auto
qed (auto simp: young_def)

lemma separate_extend:
  assumes "separate F h" "\<forall>c \<in> set new. youngCell (length h) c"
  shows "separate F (h @ new) \<and> take F (h @ new) = take F h"
proof -
  have le: "F \<le> length h" using assms(1) by (simp add: separate_def)
  have "youngCell F ((h @ new) ! a)" if "F \<le> a" "a < length (h @ new)" for a
  proof (cases "a < length h")
    case True
    then show ?thesis using assms(1) that by (simp add: separate_def nth_append)
  next
    case False
    then have "(h @ new) ! a \<in> set new" using that by (simp add: nth_append)
    then show ?thesis using assms(2) youngCell_mono[OF le] by blast
  qed
  then show ?thesis using le by (simp add: separate_def)
qed

lemma keeps_parseS: "keeps F (young F) (parseS j)"
  unfolding keeps_def
proof (intro allI impI)
  fix w :: world
  assume s: "separate F (heap w)"
  obtain v h1 where p: "parse j (heap w) = (v, h1)" by (cases "parse j (heap w)") auto
  from parse_extends(1)[OF p] obtain new where
    n: "h1 = heap w @ new" "\<forall>c \<in> set new. youngCell (length (heap w)) c"
      "young (length (heap w)) v"
    by blast
  have "F \<le> length (heap w)" using s by (simp add: separate_def)
  then have "young F v" using n(3) young_mono by blast
  then show "separate F (heap (snd (parseS j w))) \<and>
         take F (heap (snd (parseS j w))) = take F (heap w) \<and>
         (\<forall>x. fst (parseS j w) = Inr x \<longrightarrow> young F x)"
    using separate_extend[OF s n(2)] p n(1) by (simp add: parseS_def)
qed

lemma keeps_parseLoaded: "keeps F (\<lambda>vs. \<forall>x \<in> set vs. young F (fst x)) (parseLoaded loaded)"
proof (induction loaded)
  case Nil
  then show ?case by (simp add: keeps_returnS)
next
  case (Cons item rest)
  obtain d source where item: "item = (d, source)" by (cases item) auto
  show ?case
    unfolding item parseLoaded.simps
  proof (rule keeps_bindS[OF keeps_parseS])
    fix v assume v: "young F v"
    show "keeps F (\<lambda>vs. \<forall>x \<in> set vs. young F (fst x))
            (bindS (parseLoaded rest) (\<lambda>vs. returnS ((v, source) # vs)))"
      by (rule keeps_bindS[OF Cons.IH]) (simp add: keeps_returnS v)
  qed
qed

lemma keeps_stampS:
  assumes "young F v"
  shows "keeps F (young F) (stampS source v)"
  unfolding stampS_def
proof (rule keeps_bindS)
  show "keeps F (\<lambda>fields. \<forall>kvs. fields = Some kvs \<longrightarrow> youngCell F (ObjCell kvs))
          (readS (\<lambda>h. objFields h v))"
    by (rule keeps_readS) (use assms young_objFields in auto)
next
  fix fields assume "\<forall>kvs. fields = Some kvs \<longrightarrow> youngCell F (ObjCell kvs)"
  then show "keeps F (young F)
      (case fields of
         Some kvs \<Rightarrow> alloc (ObjCell (setProp ''__source__'' (VStr source) kvs))
       | None \<Rightarrow> returnS v)"
    using assms
    by (auto split: option.splits intro!: keeps_alloc keeps_returnS youngCell_setProp
          simp: young_def)
qed

lemma keeps_mergeEntriesS:
  assumes "young F result"
  shows "\<forall>kv \<in> set entries. young F (snd kv)
    \<Longrightarrow> keeps F (\<lambda>u. True) (mergeEntriesS result source entries)"
proof (induction entries)
  case Nil
  then show ?case by (simp add: keeps_returnS)
next
  case (Cons entry rest)
  obtain key v where entry: "entry = (key, v)" by (cases entry) auto
  have v: "young F v" using Cons.prems entry by simp
  show ?case
    unfolding entry mergeEntriesS.simps
  proof (rule keeps_bindS[OF keeps_stampS[OF v]])
    fix v1 assume v1: "young F v1"
    show "keeps F (\<lambda>u. True)
            (bindS (setField result key v1) (\<lambda>u. mergeEntriesS result source rest))"
      by (rule keeps_bindS[OF keeps_setField[OF assms v1]]) (use Cons in simp)
  qed
qed

lemma keeps_mergeObjectLoopS:
  assumes "young F result"
  shows "\<forall>x \<in> set loaded. young F (fst x)
    \<Longrightarrow> keeps F (\<lambda>u. True) (mergeObjectLoopS result loaded)"
proof (induction loaded)
  case Nil
  then show ?case by (simp add: keeps_returnS)
next
  case (Cons x rest)
  obtain item source where x: "x = (item, source)" by (cases x) auto
  have item: "young F item" using Cons.prems x by simp
  show ?case
    unfolding x mergeObjectLoopS.simps
  proof (rule keeps_bindS)
    show "keeps F (\<lambda>fields. \<forall>kvs. fields = Some kvs \<longrightarrow> youngCell F (ObjCell kvs))
            (readS (\<lambda>h. objFields h item))"
      by (rule keeps_readS) (use item young_objFields in auto)
  next
    fix fields assume f: "\<forall>kvs. fields = Some kvs \<longrightarrow> youngCell F (ObjCell kvs)"
    have "keeps F (\<lambda>u. True)
        (case fields of
           Some entries \<Rightarrow> mergeEntriesS result source entries
         | None \<Rightarrow> returnS ())"
      using f keeps_mergeEntriesS[OF assms]
      by (auto split: option.splits simp: keeps_returnS youngCell_Obj)
    then show "keeps F (\<lambda>u. True)
        (bindS (case fields of
                  Some entries \<Rightarrow> mergeEntriesS result source entries
                | None \<Rightarrow> returnS ())
           (\<lambda>u. mergeObjectLoopS result rest))"
      by (rule keeps_bindS) (use Cons in simp)
  qed
qed

lemma young_objectSpreadS:
  assumes "separate F h" "young F base"
  shows "youngCell F (ObjCell (objectSpreadS h base))"
proof (cases base)
  case (VRef a)
  show ?thesis
  proof (cases "cellAt h base")
    case None
    then show ?thesis using VRef by (simp add: objectSpreadS_def youngCell_Obj)
  next
    case (Some c)
    note yc = separate_cell[OF assms Some]
    show ?thesis
    proof (cases c)
      case (ObjCell kvs)
      then show ?thesis using VRef Some yc by (simp add: objectSpreadS_def)
    next
      case (ArrCell vs)
      have "young F (snd kv)" if "kv \<in> set (indexed vs)" for kv
        using indexed_values[OF that] yc ArrCell by (simp add: youngCell_Arr)
      then show ?thesis using VRef Some ArrCell by (simp add: objectSpreadS_def youngCell_Obj)
    qed
  qed
next
  case (VStr str)
  have "young F (snd kv)" if "kv \<in> set (indexed (map (\<lambda>c. VStr [c]) str))" for kv
    using indexed_values[OF that] by (auto simp: young_def)
  then show ?thesis using VStr by (simp add: objectSpreadS_def youngCell_Obj)
qed (simp_all add: objectSpreadS_def youngCell_Obj)

lemma young_arraySpreadS:
  assumes "separate F h" "young F base" "arraySpreadS h base = Inr vs"
  shows "youngCell F (ArrCell vs)"
proof (cases base)
  case (VRef a)
  then obtain c where c: "cellAt h base = Some c" "c = ArrCell vs"
    using assms(3) by (auto simp: arraySpreadS_def split: option.splits cell.splits)
  from separate_cell[OF assms(1,2) c(1)] c(2) show ?thesis by simp
next
  case (VStr str)
  then show ?thesis using assms(3) by (auto simp: arraySpreadS_def youngCell_Arr young_def)
qed (use assms(3) in \<open>simp_all add: arraySpreadS_def\<close>)

lemma keeps_mergeObjectValuesS:
  assumes "young F base" "\<forall>x \<in> set loaded. young F (fst x)"
  shows "keeps F (young F) (mergeObjectValuesS base loaded)"
  unfolding mergeObjectValuesS_def
proof (rule keeps_bindS)
  show "keeps F (\<lambda>fields. youngCell F (ObjCell fields)) (readS (\<lambda>h. objectSpreadS h base))"
    by (rule keeps_readS) (use assms(1) young_objectSpreadS in auto)
next
  fix fields assume "youngCell F (ObjCell fields)"
  from keeps_alloc[OF this]
  show "keeps F (young F)
      (bindS (alloc (ObjCell fields))
         (\<lambda>result. bindS (mergeObjectLoopS result loaded) (\<lambda>u. returnS result)))"
  proof (rule keeps_bindS)
    fix result assume r: "young F result"
    show "keeps F (young F) (bindS (mergeObjectLoopS result loaded) (\<lambda>u. returnS result))"
      by (rule keeps_bindS[OF keeps_mergeObjectLoopS[OF r assms(2)]]) (simp add: keeps_returnS r)
  qed
qed

lemma keeps_pushStamped:
  assumes "young F result"
  shows "\<forall>e \<in> set elements. young F e
    \<Longrightarrow> keeps F (\<lambda>u. True) (pushStamped result source elements)"
proof (induction elements)
  case Nil
  then show ?case by (simp add: keeps_returnS)
next
  case (Cons element rest)
  have e: "young F element" using Cons.prems by simp
  show ?case
    unfolding pushStamped.simps
  proof (rule keeps_bindS[OF keeps_stampS[OF e]])
    fix v assume v: "young F v"
    show "keeps F (\<lambda>u. True)
            (bindS (pushElem result v) (\<lambda>u. pushStamped result source rest))"
      by (rule keeps_bindS[OF keeps_pushElem[OF assms v]]) (use Cons in simp)
  qed
qed

lemma keeps_mergeArrayLoopS:
  assumes "young F result"
  shows "\<forall>x \<in> set loaded. young F (fst x)
    \<Longrightarrow> keeps F (\<lambda>u. True) (mergeArrayLoopS result loaded)"
proof (induction loaded)
  case Nil
  then show ?case by (simp add: keeps_returnS)
next
  case (Cons x rest)
  obtain item source where x: "x = (item, source)" by (cases x) auto
  have item: "young F item" using Cons.prems x by simp
  show ?case
    unfolding x mergeArrayLoopS.simps
  proof (rule keeps_bindS)
    show "keeps F (\<lambda>elements. \<forall>es. elements = Some es \<longrightarrow> youngCell F (ArrCell es))
            (readS (\<lambda>h. arrElems h item))"
      by (rule keeps_readS) (use item young_arrElems in auto)
  next
    fix elements assume f: "\<forall>es. elements = Some es \<longrightarrow> youngCell F (ArrCell es)"
    have one: "keeps F (\<lambda>u. True) (pushStamped result source [item])"
      by (rule keeps_pushStamped[OF assms]) (simp add: item)
    have "keeps F (\<lambda>u. True)
        (case elements of
           Some es \<Rightarrow> pushStamped result source es
         | None \<Rightarrow> pushStamped result source [item])"
    proof (cases elements)
      case None
      then show ?thesis using one by (simp only: option.case)
    next
      case (Some es)
      then have "keeps F (\<lambda>u. True) (pushStamped result source es)"
        using f keeps_pushStamped[OF assms] by (simp add: youngCell_Arr)
      then show ?thesis using Some by (simp only: option.case)
    qed
    then show "keeps F (\<lambda>u. True)
        (bindS (case elements of
                  Some es \<Rightarrow> pushStamped result source es
                | None \<Rightarrow> pushStamped result source [item])
           (\<lambda>u. mergeArrayLoopS result rest))"
      by (rule keeps_bindS) (use Cons in simp)
  qed
qed

lemma keeps_mergeArrayValuesS:
  assumes "young F base" "\<forall>x \<in> set loaded. young F (fst x)"
  shows "keeps F (young F) (mergeArrayValuesS base loaded)"
  unfolding mergeArrayValuesS_def
proof (rule keeps_bindS)
  show "keeps F (\<lambda>elements. \<forall>vs. elements = Inr vs \<longrightarrow> youngCell F (ArrCell vs))
          (readS (\<lambda>h. arraySpreadS h base))"
    by (rule keeps_readS) (use assms(1) young_arraySpreadS in auto)
next
  fix elements :: "fault + jsval list"
  assume e: "\<forall>vs. elements = Inr vs \<longrightarrow> youngCell F (ArrCell vs)"
  show "keeps F (young F)
      (case elements of
         Inl e \<Rightarrow> raiseS e
       | Inr vs \<Rightarrow>
           bindS (alloc (ArrCell vs))
             (\<lambda>result. bindS (mergeArrayLoopS result loaded) (\<lambda>u. returnS result)))"
  proof (cases elements)
    case (Inl err)
    then show ?thesis by (simp add: keeps_raiseS)
  next
    case (Inr vs)
    then have "youngCell F (ArrCell vs)" using e by simp
    from keeps_alloc[OF this]
    have "keeps F (young F)
        (bindS (alloc (ArrCell vs))
           (\<lambda>result. bindS (mergeArrayLoopS result loaded) (\<lambda>u. returnS result)))"
    proof (rule keeps_bindS)
      fix result assume r: "young F result"
      show "keeps F (young F) (bindS (mergeArrayLoopS result loaded) (\<lambda>u. returnS result))"
        by (rule keeps_bindS[OF keeps_mergeArrayLoopS[OF r assms(2)]]) (simp add: keeps_returnS r)
    qed
    then show ?thesis using Inr by simp
  qed
qed

lemma young_truthyOpt:
  "separate F h \<Longrightarrow> young F v \<Longrightarrow> truthyOpt (propOf h v k) = Some x \<Longrightarrow> young F x"
  using young_propOf[of F h v k x]
  by (auto simp: truthyOpt_def split: option.splits if_splits)

lemma keeps_importFromGlobKeyS:
  assumes c: "young F cfg"
  shows "keeps F (\<lambda>v. True) (importFromGlobKeyS env cfg globKey targetKey isArray visited)"
proof (cases "cfg = VNull")
  case True
  then show ?thesis by (simp add: importFromGlobKeyS_def keeps_raiseS)
next
  case False
  have rest: "keeps F (\<lambda>v. True)
      (bindS (parseLoaded (fst found1)) (\<lambda>loadedDataWithSources.
       bindS (readS (\<lambda>h. truthyOpt (propOf h cfg targetKey))) (\<lambda>base.
       bindS (case base of
                Some b \<Rightarrow> returnS b
              | None \<Rightarrow> alloc (if isArray then ArrCell [] else ObjCell [])) (\<lambda>base1.
       bindS (if isArray then mergeArrayValuesS base1 loadedDataWithSources
              else mergeObjectValuesS base1 loadedDataWithSources) (\<lambda>merged.
       bindS (setField cfg targetKey merged) (\<lambda>u.
       bindS (deleteField cfg (keyName globKey)) (\<lambda>u. returnS (snd found1))))))))"
    for found1 :: "(json \<times> string) list \<times> string list option"
    apply (rule keeps_bindS[OF keeps_parseLoaded])
    apply (rule keeps_bindS[where P = "\<lambda>base. \<forall>b. base = Some b \<longrightarrow> young F b"])
     apply (rule keeps_readS)
     apply (use c young_truthyOpt in blast)
    apply (rule keeps_bindS[where P = "young F"])
     apply (auto split: option.splits intro!: keeps_returnS keeps_alloc
        simp: youngCell_def cellVals_def)[1]
    apply (rule keeps_bindS[where P = "young F"])
     apply (simp add: keeps_mergeArrayValuesS keeps_mergeObjectValuesS)
    apply (rule keeps_bindS[OF keeps_setField[OF c]])
     apply assumption
    apply (rule keeps_bindS[OF keeps_deleteField[OF c]])
    apply (simp add: keeps_returnS)
    done
  show ?thesis
    unfolding importFromGlobKeyS_def
    apply (simp only: False if_False)
    apply (rule keeps_bindS[where P = "\<lambda>found. True"])
     apply (simp add: keeps_readS)
    apply (split option.split)
    apply (intro conjI allI impI)
     apply (simp add: keeps_returnS)
    apply (rule keeps_bindS[where P = "\<lambda>found1. True"])
     apply (simp add: keeps_loaderS)
    apply (rule rest)
    done
qed

lemma keeps_importIfTruthyS:
  assumes c: "young F cfg"
  shows "keeps F (\<lambda>v. True) (importIfTruthyS env cfg globKey targetKey isArray visited)"
  unfolding importIfTruthyS_def
  apply (rule keeps_bindS[where P = "\<lambda>g. True"])
   apply (simp add: keeps_readS)
  apply (simp add: keeps_returnS keeps_importFromGlobKeyS[OF c] split: option.splits)
  done

lemma young_inputStructuresS:
  assumes "separate F h" "young F v" "inputStructuresS h v = Some s"
  shows "young F s"
proof -
  from assms(3) obtain iv opts ov where
    a: "objFields h v = Some iv" "getProp iv ''options'' = Some opts"
      "objFields h opts = Some ov" "getProp ov ''structures'' = Some s"
    by (auto simp: inputStructuresS_def split: option.splits)
  have "young F opts" using young_objFields[OF assms(1,2) a(1)] young_getProp[OF _ a(2)] by simp
  then show ?thesis using young_objFields[OF assms(1) _ a(3)] young_getProp[OF _ a(4)] by simp
qed

lemma young_arrayPropS:
  assumes "separate F h" "young F v" "arrayPropS h v k = Some vs"
  shows "\<forall>e \<in> set vs. young F e"
proof -
  from assms(3) obtain x where a: "propOf h v k = Some x" "arrElems h x = Some vs"
    by (auto simp: arrayPropS_def split: option.splits)
  from young_arrElems[OF assms(1) young_propOf[OF assms(1,2) a(1)] a(2)]
  show ?thesis by (simp add: youngCell_Arr)
qed

lemma keeps_walkerS:
  "young F inputs \<Longrightarrow> keeps F (\<lambda>v. True) (processInputsKeyS env fuel inputs visited)"
  "\<forall>x \<in> set inputValues. young F x
     \<Longrightarrow> keeps F (\<lambda>v. True) (processInputValuesS env fuel inputValues visited)"
  "young F inputValue \<Longrightarrow> keeps F (\<lambda>v. True) (processInputValueS env fuel inputValue visited)"
  "\<forall>x \<in> set vals. young F x
     \<Longrightarrow> keeps F (\<lambda>v. True) (processStructureValuesS env fuel vals visited)"
  "young F structureValue
     \<Longrightarrow> keeps F (\<lambda>v. True) (processStructureValueS env fuel structureValue visited)"
proof (induction env fuel inputs visited and env fuel inputValues visited
         and env fuel inputValue visited and env fuel vals visited
         and env fuel structureValue visited
       rule: processInputsKeyS_processInputValuesS_processInputValueS_processStructureValuesS_processStructureValueS.induct)
  case (1 env fuel inputs visited)
  show ?case
    unfolding processInputsKeyS.simps
    apply (rule keeps_bindS[where
          P = "\<lambda>fields. \<forall>kvs. fields = Some kvs \<longrightarrow> youngCell F (ObjCell kvs)"])
     apply (rule keeps_readS)
     apply (use "1.prems" young_objFields in blast)
    apply (split option.split)
    apply (intro conjI allI impI)
     apply (simp add: keeps_returnS)
    apply (rule "1.IH")
    apply (auto simp: youngCell_Obj)
    done
next
  case (2 env fuel visited)
  then show ?case by (simp add: keeps_returnS)
next
  case (3 env fuel inputValue rest visited)
  show ?case
    unfolding processInputValuesS.simps
    apply (rule keeps_bindS[where P = "\<lambda>v. True"])
     apply (rule "3.IH"(1))
     apply (use "3.prems" in simp)
    apply (rule "3.IH"(2))
    apply (use "3.prems" in simp)
    done
next
  case (4 env fuel inputValue visited)
  show ?case
    unfolding processInputValueS.simps
    apply (rule keeps_bindS[where P = "\<lambda>found. \<forall>s. found = Some s \<longrightarrow> young F s"])
     apply (rule keeps_readS)
     apply (use "4.prems" young_inputStructuresS in blast)
    apply (split option.split)
    apply (intro conjI allI impI)
     apply (simp add: keeps_returnS)
    apply (rule keeps_bindS[where P = "\<lambda>v. True"])
     apply (rule keeps_importIfTruthyS)
     apply simp
    apply (rule keeps_bindS[where P = "\<lambda>vals. \<forall>vs. vals = Some vs \<longrightarrow> (\<forall>e \<in> set vs. young F e)"])
     apply (rule keeps_readS)
     apply (use young_arrayPropS in blast)
    apply (split option.split)
    apply (intro conjI allI impI)
     apply (simp add: keeps_returnS)
    apply (rule keeps_bindS[where P = "\<lambda>v. True"])
     apply (rule "4.IH")
        apply simp_all
    apply (simp add: keeps_returnS)
    done
next
  case (5 env fuel visited)
  then show ?case by (simp add: keeps_returnS)
next
  case (6 env fuel structureValue rest visited)
  show ?case
    unfolding processStructureValuesS.simps
    apply (rule keeps_bindS[where P = "\<lambda>v. True"])
     apply (rule "6.IH"(1))
     apply (use "6.prems" in simp)
    apply (rule "6.IH"(2))
    apply (use "6.prems" in simp)
    done
next
  case (7 env structureValue visited)
  then show ?case by (simp add: keeps_raiseS)
next
  case (8 env fuel structureValue visited)
  show ?case
    unfolding processStructureValueS.simps
    apply (rule keeps_bindS[where P = "\<lambda>fields. True"])
     apply (simp add: keeps_readS)
    apply (split option.split)
    apply (intro conjI allI impI)
     apply (simp add: keeps_returnS)
    apply (rule keeps_bindS[where P = "\<lambda>v. True"])
     apply (rule keeps_importIfTruthyS[OF "8.prems"])
    apply (rule keeps_bindS[where P = "\<lambda>inputs. \<forall>i. inputs = Some i \<longrightarrow> young F i"])
     apply (rule keeps_readS)
     apply (use "8.prems" young_truthyOpt in blast)
    apply (split option.split)
    apply (intro conjI allI impI)
     apply (simp add: keeps_returnS)
    apply (rule "8.IH")
       apply simp_all
    done
qed

lemma keeps_forEachS:
  "(\<And>x s'. x \<in> set xs \<Longrightarrow> keeps F (\<lambda>v. True) (f x s'))
     \<Longrightarrow> keeps F (\<lambda>v. True) (forEachS f xs s)"
proof (induction xs arbitrary: s)
  case Nil
  then show ?case by (simp add: keeps_returnS)
next
  case (Cons x xs)
  show ?case
    unfolding forEachS.simps
    apply (rule keeps_bindS[where P = "\<lambda>v. True"])
     apply (rule Cons.prems)
     apply simp
    apply (rule Cons.IH)
    apply (rule Cons.prems)
    apply simp
    done
qed

lemma keeps_processStructureS:
  assumes c: "young F structure"
  shows "keeps F (\<lambda>v. True) (processStructureS env fuel structure visited)"
  unfolding processStructureS_def
  apply (rule keeps_bindS[where P = "\<lambda>fields. True"])
   apply (simp add: keeps_readS)
  apply (split option.split)
  apply (intro conjI allI impI)
   apply (simp add: keeps_returnS)
  apply (rule keeps_bindS[where P = "\<lambda>v. True"])
   apply (rule keeps_importFromGlobKeyS[OF c])
  apply (rule keeps_bindS[where P = "\<lambda>vals. \<forall>vs. vals = Some vs \<longrightarrow> (\<forall>e \<in> set vs. young F e)"])
   apply (rule keeps_readS)
   apply (use c young_arrayPropS in blast)
  apply (split option.split)
  apply (intro conjI allI impI)
   apply (simp add: keeps_returnS)
  apply (rule keeps_bindS[where P = "\<lambda>v. True"])
   apply (rule keeps_walkerS(4))
   apply simp
  apply (simp add: keeps_returnS)
  done

lemma keeps_processStructuresKeyS:
  assumes c: "young F structures"
  shows "keeps F (\<lambda>v. True) (processStructuresKeyS env fuel structures visited)"
  unfolding processStructuresKeyS_def
  apply (rule keeps_bindS[where
        P = "\<lambda>fields. \<forall>kvs. fields = Some kvs \<longrightarrow> youngCell F (ObjCell kvs)"])
   apply (rule keeps_readS)
   apply (use c young_objFields in blast)
  apply (split option.split)
  apply (intro conjI allI impI)
   apply (simp add: keeps_returnS)
  apply (rule keeps_forEachS)
  apply (rule keeps_processStructureS)
  apply (auto simp: youngCell_Obj)
  done

lemma keeps_importKeyS:
  assumes c: "young F cfg"
  shows "keeps F (\<lambda>v. True) (importKeyS env cfg globKey targetKey)"
  unfolding importKeyS_def
  apply (rule keeps_bindS[OF keeps_importFromGlobKeyS[OF c]])
  apply (simp add: keeps_returnS)
  done

lemma keeps_processInputsOfS:
  assumes c: "young F cfg"
  shows "keeps F (\<lambda>v. True) (processInputsOfS env fuel cfg)"
  unfolding processInputsOfS_def
  apply (rule keeps_bindS[where P = "\<lambda>inputs. \<forall>i. inputs = Some i \<longrightarrow> young F i"])
   apply (rule keeps_readS)
   apply (use c young_propOf in blast)
  apply (split option.split)
  apply (intro conjI allI impI)
   apply (simp add: keeps_returnS)
  apply (rule keeps_bindS[where P = "\<lambda>v. True"])
   apply (rule keeps_walkerS(1))
   apply simp
  apply (simp add: keeps_returnS)
  done

lemma keeps_processStructuresOfS:
  assumes c: "young F cfg"
  shows "keeps F (\<lambda>v. True) (processStructuresOfS env fuel cfg)"
  unfolding processStructuresOfS_def
  apply (rule keeps_bindS[where P = "\<lambda>structures. \<forall>i. structures = Some i \<longrightarrow> young F i"])
   apply (rule keeps_readS)
   apply (use c young_propOf in blast)
  apply (split option.split)
  apply (intro conjI allI impI)
   apply (simp add: keeps_returnS)
  apply (rule keeps_bindS[where P = "\<lambda>v. True"])
   apply (rule keeps_processStructuresKeyS)
   apply simp
  apply (simp add: keeps_returnS)
  done

lemma keeps_importInputsAndStructuresS:
  assumes c: "young F cfg"
  shows "keeps F (\<lambda>v. True) (importInputsAndStructuresS env fuel cfg)"
  unfolding importInputsAndStructuresS_def
  apply (rule keeps_bindS[OF keeps_importKeyS[OF c]])
  apply (rule keeps_bindS[OF keeps_importKeyS[OF c]])
  apply (rule keeps_bindS[OF keeps_processInputsOfS[OF c]])
  apply (rule keeps_processStructuresOfS[OF c])
  done

lemma keeps_processSchemaS:
  assumes c: "young F schemaValue"
  shows "keeps F (\<lambda>v. True) (processSchemaS env fuel schemaValue u)"
  unfolding processSchemaS_def
  apply (rule keeps_bindS[where P = "\<lambda>fields. True"])
   apply (simp add: keeps_readS)
  apply (simp add: keeps_returnS keeps_importInputsAndStructuresS[OF c] split: option.splits)
  done

lemma keeps_processSnippetS:
  assumes c: "young F snippetConfig"
  shows "keeps F (\<lambda>v. True) (processSnippetS env fuel snippetConfig u)"
  unfolding processSnippetS_def
  apply (rule keeps_bindS[where P = "\<lambda>fields. True"])
   apply (simp add: keeps_readS)
  apply (simp add: keeps_returnS keeps_importInputsAndStructuresS[OF c] split: option.splits)
  done

lemma young_nested:
  assumes "separate F h" "young F v"
    and "(case propOf h v k of None \<Rightarrow> None | Some x \<Rightarrow> propOf h x k') = Some y"
  shows "young F y"
proof -
  from assms(3) obtain x where a: "propOf h v k = Some x" "propOf h x k' = Some y"
    by (auto split: option.splits)
  from young_propOf[OF assms(1) young_propOf[OF assms(1,2) a(1)] a(2)] show ?thesis .
qed

lemma young_nestedFields:
  assumes "separate F h" "young F v"
    and "(case propOf h v k of None \<Rightarrow> None | Some x \<Rightarrow> objFields h x) = Some kvs"
  shows "youngCell F (ObjCell kvs)"
proof -
  from assms(3) obtain x where a: "propOf h v k = Some x" "objFields h x = Some kvs"
    by (auto split: option.splits)
  from young_objFields[OF assms(1) young_propOf[OF assms(1,2) a(1)] a(2)] show ?thesis .
qed

lemma keeps_processCollectionS:
  assumes c: "young F cfg" and e: "young F (snd entry)"
  shows "keeps F (\<lambda>v. True) (processCollectionS env fuel cfg entry u)"
  unfolding processCollectionS_def
  apply (rule keeps_bindS[where P = "\<lambda>fields. True"])
   apply (simp add: keeps_readS)
  apply (split option.split)
  apply (intro conjI allI impI)
   apply (simp add: keeps_returnS)
  apply (rule keeps_bindS[where P = "\<lambda>v. True"])
   apply (simp add: keeps_returnS keeps_importKeyS[OF e])
  apply (rule keeps_bindS[where P = "\<lambda>found. \<forall>x. found = Some x \<longrightarrow> young F x"])
   apply (rule keeps_readS)
   apply (use c young_nested in blast)
  apply (split option.split)
  apply (intro conjI allI impI)
   apply (simp add: keeps_raiseS)
  apply (rule keeps_bindS[where P = "\<lambda>v. True"])
   apply (rule keeps_importInputsAndStructuresS)
   apply simp
  apply (rule keeps_bindS[where
        P = "\<lambda>schemas. \<forall>kvs. schemas = Some kvs \<longrightarrow> youngCell F (ObjCell kvs)"])
   apply (rule keeps_readS)
   apply (use young_nestedFields in blast)
  apply (split option.split)
  apply (intro conjI allI impI)
   apply (simp add: keeps_returnS)
  apply (rule keeps_forEachS)
  apply (rule keeps_processSchemaS)
  apply (auto simp: youngCell_Obj)
  done

lemma young_objectPropS:
  assumes "separate F h" "young F v" "objectPropS h v k = Some p"
  shows "young F (fst p) \<and> youngCell F (ObjCell (snd p))"
proof -
  from assms(3) obtain x kvs where a: "truthyOpt (propOf h v k) = Some x"
    "objFields h x = Some kvs" "p = (x, kvs)"
    by (auto simp: objectPropS_def split: option.splits)
  have "young F x" using young_truthyOpt[OF assms(1,2) a(1)] .
  then show ?thesis using young_objFields[OF assms(1) _ a(2)] a(3) by simp
qed

lemma keeps_processCollectionsS:
  assumes c: "young F cfg"
  shows "keeps F (\<lambda>v. True) (processCollectionsS env fuel cfg)"
  unfolding processCollectionsS_def
  apply (rule keeps_bindS[where
        P = "\<lambda>found. \<forall>p. found = Some p \<longrightarrow> young F (fst p) \<and> youngCell F (ObjCell (snd p))"])
   apply (rule keeps_readS)
   apply (use c young_objectPropS in blast)
  apply (split option.split)
  apply (intro conjI allI impI)
   apply (simp add: keeps_returnS)
  apply (rule keeps_forEachS)
  apply (rule keeps_processCollectionS[OF c])
  apply (auto simp: youngCell_Obj)
  done

lemma keeps_processSnippetsS:
  assumes c: "young F cfg"
  shows "keeps F (\<lambda>v. True) (processSnippetsS env fuel cfg)"
  unfolding processSnippetsS_def
  apply (rule keeps_bindS[where
        P = "\<lambda>found. \<forall>p. found = Some p \<longrightarrow> young F (fst p) \<and> youngCell F (ObjCell (snd p))"])
   apply (rule keeps_readS)
   apply (use c young_objectPropS in blast)
  apply (split option.split)
  apply (intro conjI allI impI)
   apply (simp add: keeps_returnS)
  apply (rule keeps_bindS[where P = "\<lambda>v. True"])
   apply (rule keeps_importKeyS)
   apply simp
  apply (rule keeps_bindS[where
        P = "\<lambda>found. \<forall>p. found = Some p \<longrightarrow> young F (fst p) \<and> youngCell F (ObjCell (snd p))"])
   apply (rule keeps_readS)
   apply (use c young_objectPropS in blast)
  apply (split option.split)
  apply (intro conjI allI impI)
   apply (simp add: keeps_raiseS)
  apply (rule keeps_forEachS)
  apply (rule keeps_processSnippetS)
  apply (auto simp: youngCell_Obj)
  done

lemma keeps_loaderMergeConfigurationS:
  assumes c: "young F cfg"
  shows "keeps F (young F) (loaderMergeConfigurationS env fuel cfg)"
  unfolding loaderMergeConfigurationS_def
  apply (rule keeps_bindS[where P = "\<lambda>v. True"])
   apply (simp add: keeps_loaderS)
  apply (rule keeps_bindS[where P = "\<lambda>v. True"])
   apply (rule keeps_forEachS)
   apply (simp add: importRootKeyS_def keeps_importKeyS[OF c])
  apply (rule keeps_bindS[OF keeps_processInputsOfS[OF c]])
  apply (rule keeps_bindS[OF keeps_processStructuresOfS[OF c]])
  apply (rule keeps_bindS[OF keeps_processCollectionsS[OF c]])
  apply (rule keeps_bindS[OF keeps_processSnippetsS[OF c]])
  apply (simp add: keeps_returnS c)
  done

subsection \<open>Reading a value from a larger store\<close>

lemma readVal_extend:
  "readVal n h v = Some j \<Longrightarrow> readVal n (h @ ext) v = Some j"
  "readList n h vs = Some js \<Longrightarrow> readList n (h @ ext) vs = Some js"
  "readFields n h kvs = Some fs \<Longrightarrow> readFields n (h @ ext) kvs = Some fs"
proof (induction n h v and n h vs and n h kvs arbitrary: j and js and fs
       rule: readVal_readList_readFields.induct)
  case (6 n h a)
  then show ?case
    by (auto simp: nth_append split: if_splits cell.splits)
next
  case (8 n h v vs)
  then show ?case by (auto split: option.splits)
next
  case (10 n h k v kvs)
  then show ?case by (auto split: option.splits)
qed simp_all

lemma readVal_fuel:
  "readVal n h v = Some j \<Longrightarrow> readVal (Suc n) h v = Some j"
  "readList n h vs = Some js \<Longrightarrow> readList (Suc n) h vs = Some js"
  "readFields n h kvs = Some fs \<Longrightarrow> readFields (Suc n) h kvs = Some fs"
proof (induction n h v and n h vs and n h kvs arbitrary: j and js and fs
       rule: readVal_readList_readFields.induct)
  case (6 n h a)
  then show ?case
    by (auto split: if_splits cell.splits)
next
  case (8 n h v vs)
  then show ?case by (auto split: option.splits)
next
  case (10 n h k v kvs)
  then show ?case by (auto split: option.splits)
qed simp_all

lemma readVal_more_fuel: "readVal n h v = Some j \<Longrightarrow> readVal (n + m) h v = Some j"
  by (induction m) (simp_all add: readVal_fuel(1))

lemma stringify_extend:
  assumes "stringify h v = Some j"
  shows "stringify (h @ ext) v = Some j"
proof -
  from assms have "readVal (length h) (h @ ext) v = Some j"
    by (simp add: stringify_def readVal_extend(1))
  from readVal_more_fuel[OF this, of "length ext"] show ?thesis by (simp add: stringify_def)
qed

lemma separate_all: "separate (length h) h"
  by (auto simp: separate_def)

lemma young_parsed: "parse j h = (v, h1) \<Longrightarrow> young (length h) v"
  using parse_extends(1) by blast

lemma keeps_entry:
  "keeps F (\<lambda>v. True)
     (bindS (readS (\<lambda>h. stringify h cfg))
        (\<lambda>serialized. case serialized of
            None \<Rightarrow> raiseS TypeError
          | Some content \<Rightarrow>
              bindS (parseS content) (\<lambda>copy. loaderMergeConfigurationS env fuel copy)))"
  apply (rule keeps_bindS[where P = "\<lambda>v. True"])
   apply (simp add: keeps_readS)
  apply (split option.split)
  apply (intro conjI allI impI)
   apply (simp add: keeps_raiseS)
  apply (rule keeps_bindS[OF keeps_parseS])
  apply (rule keeps_weaken)
   apply (rule keeps_loaderMergeConfigurationS)
   apply simp_all
  done

lemma mergeConfigurationS_store:
  "snd (mergeConfigurationS env fuel cfg h)
     = heap (snd (bindS (readS (\<lambda>h. stringify h cfg))
        (\<lambda>serialized. case serialized of
            None \<Rightarrow> raiseS TypeError
          | Some content \<Rightarrow>
              bindS (parseS content) (\<lambda>copy. loaderMergeConfigurationS env fuel copy))
        \<lparr>heap = h, loaderOf = newLoader\<rparr>))"
  by (simp add: mergeConfigurationS_def split: prod.splits sum.splits)

lemma mergeConfigurationS_circular:
  "stringify h cfg = None \<Longrightarrow> mergeConfigurationS env fuel cfg h = (Inl TypeError, h)"
  by (simp add: mergeConfigurationS_def bindS_def readS_def raiseS_def)

lemma mergeConfigurationS_frame:
  "take (length h) (snd (mergeConfigurationS env fuel cfg h)) = h"
proof -
  let ?w = "\<lparr>heap = h, loaderOf = newLoader\<rparr>"
  have "separate (length h) (heap ?w)" by (simp add: separate_all)
  with keeps_entry[of "length h" cfg env fuel]
  show ?thesis unfolding mergeConfigurationS_store by (simp add: keeps_def)
qed

section \<open>The claims\<close>

subsection \<open>C9: negated patterns\<close>


lemma negationExample_run:
  "case mergeConfiguration negationExampleEnv 0 negationExampleConfig of
     Inl e \<Rightarrow> False
   | Inr result \<Rightarrow>
       globPatterns result = [''/.cloudcannon/collections/*.yml'']
       \<and> calls result = [FindFiles [JStr ''/.cloudcannon/collections/*.yml'', JStr ''!/.cloudcannon/collections/draft.yml'']]"
  by code_simp



subsection \<open>C5: a path resolved under two reference keys\<close>



lemma sharedExample_run:
  "case mergeConfiguration sharedEnv 0 sharedConfig of
     Inl e \<Rightarrow> False
   | Inr result \<Rightarrow>
       multipleGlobKeys (warnings result) =
         [MultipleGlobKeys ''/.cloudcannon/shared/config.yml'' Collections_config_from_glob Inputs_from_glob]
       \<and> pathsToGlobKey result = [(''/.cloudcannon/shared/config.yml'', Collections_config_from_glob)]
       \<and> config result =
           [(''collections_config'',
             JObj [(''posts'', JObj [(''path'', JStr ''content/posts''),
                                    (''__source__'', JStr ''/.cloudcannon/shared/config.yml'')])]),
            (''_inputs'', JObj [])]"
  by code_simp


subsection \<open>C4: a path already in the visitation chain\<close>



lemma heroExample_run:
  "case mergeConfiguration heroEnv 1 heroConfig of
     Inl e \<Rightarrow> False
   | Inr result \<Rightarrow>
       cycles (warnings result)
         = [Cycle ''/.cloudcannon/structures/hero.yml'' [''/.cloudcannon/structures/hero.yml'']]
       \<and> calls result =
           [FindFiles [JStr ''/.cloudcannon/structures/*.yml''],
            LoadFile ''/.cloudcannon/structures/hero.yml'',
            FindFiles [JStr ''/.cloudcannon/structures/*.yml'']]"
  by code_simp

lemma heroInput_run:
  "case processInputValue heroEnv 0 heroInput (Some [''/.cloudcannon/structures/hero.yml'']) newLoader of
     Inl e \<Rightarrow> False
   | Inr r \<Rightarrow> fst (snd r) = Some [''/.cloudcannon/structures/hero.yml'']"
  by code_simp


subsection \<open>C6: a fragment whose payload is an array\<close>


lemma arrayExample_run:
  "case mergeConfiguration arrayEnv 0 arrayConfig of
     Inl e \<Rightarrow> False
   | Inr result \<Rightarrow>
       arrayValues (warnings result) = [ArrayValue ''/.cloudcannon/inputs/invalid.yml'']
       \<and> config result =
           [(''_inputs'',
             JObj [(''description'', JObj [(''type'', JStr ''textarea''),
                      (''__source__'', JStr ''/.cloudcannon/inputs/valid.yml'')])])]
       \<and> pathsToGlobKey result =
           [(''/.cloudcannon/inputs/invalid.yml'', Inputs_from_glob),
            (''/.cloudcannon/inputs/valid.yml'', Inputs_from_glob)]"
  by code_simp


subsection \<open>C10: the claim precedes the load\<close>



lemma brokenExample_run:
  "case mergeConfiguration brokenEnv 0 brokenConfig of
     Inl e \<Rightarrow> False
   | Inr result \<Rightarrow>
       pathsToGlobKey result = [(''/.cloudcannon/inputs/broken.yml'', Collections_config_from_glob)]
       \<and> globKeyToPaths result Collections_config_from_glob = [''/.cloudcannon/inputs/broken.yml'']
       \<and> globKeyToPaths result Inputs_from_glob = []
       \<and> multipleGlobKeys (warnings result) =
           [MultipleGlobKeys ''/.cloudcannon/inputs/broken.yml'' Collections_config_from_glob
              Inputs_from_glob]
       \<and> config result = [(''collections_config'', JObj []), (''_inputs'', JObj [])]
       \<and> calls result =
           [FindFiles [JStr ''/.cloudcannon/inputs/*.yml''],
            LoadFile ''/.cloudcannon/inputs/broken.yml'',
            FindFiles [JStr ''/.cloudcannon/inputs/*.yml'']]"
  by code_simp


subsection \<open>C1: merge precedence\<close>


lemma overlapExample_run:
  "case mergeConfiguration overlapEnv 0 overlapConfig of
     Inl e \<Rightarrow> False
   | Inr result \<Rightarrow>
       config result =
         [(''_inputs'', JObj [(''title'', JObj [(''type'', JStr ''textarea''), (''__source__'', JStr ''b.yml'')])])]
       \<and> calls result = [FindFiles [JStr ''*.yml''], LoadFile ''a.yml'', LoadFile ''b.yml'']"
  by code_simp


subsection \<open>C8: reference keys in the returned tree\<close>




subsection \<open>C2: a configuration without reference keys\<close>


lemma plainConfig_shape: "\<not> hasGlobKeyFields plainConfig \<and> depthFields plainConfig = 8"
  by code_simp


subsection \<open>C7: a loader whose every load fails\<close>



lemma brokenChainConfig_shape:
  "valuesIterable (JObj brokenChainConfig) \<and> depthFields brokenChainConfig = 5"
  by code_simp

lemma brokenInputs_import:
  "case importFromGlobKey brokenEnv brokenInputsConfig Inputs_from_glob ''_inputs'' False None newLoader of
     Inl e \<Rightarrow> False
   | Inr r \<Rightarrow> fst r = [(''_inputs'', JObj [])] \<and> fst (snd r) = None
       \<and> warnings (snd (snd r)) = emptyWarnings
       \<and> calls (snd (snd r)) = [FindFiles [JStr ''/.cloudcannon/inputs/*.yml''],
                                 LoadFile ''/.cloudcannon/inputs/broken.yml'']"
  by code_simp


subsection \<open>C3: the caller's configuration\<close>

text \<open>
  C3. Let the store \<open>h\<close> hold the caller's configuration \<open>cfg\<close>, and whatever else. After
  \<open>mergeConfigurationS\<close>, whether it returned or raised, every cell of \<open>h\<close> is what it was
  (the store has only grown), and \<^verbatim>\<open>JSON.stringify(config)\<close> gives what it gave before the
  call. This holds for all collaborators that do not themselves write to the store.
\<close>

theorem caller_configuration_not_mutated:
  "take (length h) (snd (mergeConfigurationS env fuel cfg h)) = h
   \<and> stringify (snd (mergeConfigurationS env fuel cfg h)) cfg = stringify h cfg"
proof
  show frame: "take (length h) (snd (mergeConfigurationS env fuel cfg h)) = h"
    by (rule mergeConfigurationS_frame)
  show "stringify (snd (mergeConfigurationS env fuel cfg h)) cfg = stringify h cfg"
  proof (cases "stringify h cfg")
    case None
    then show ?thesis by (simp add: mergeConfigurationS_circular)
  next
    case (Some j)
    let ?h1 = "snd (mergeConfigurationS env fuel cfg h)"
    have "?h1 = h @ drop (length h) ?h1"
      using frame append_take_drop_id[of "length h" ?h1] by simp
    then show ?thesis using stringify_extend[OF Some, of "drop (length h) ?h1"] Some by simp
  qed
qed

lemma mutationExample_run:
  "case storeOf mutationConfig of
     (root, h) \<Rightarrow>
       stringify h root = Some (JObj mutationConfig)
       \<and> (case mergeConfigurationS mutationEnv 1 root h of
            (Inr (result, st), h1) \<Rightarrow>
              stringify h1 result
                = Some (JObj [(''collections_config'',
                     JObj [(''existing'', JObj [(''path'', JStr ''content/existing'')]),
                           (''posts'', JObj [(''path'', JStr ''content/posts''),
                                             (''__source__'', JStr ''/.cloudcannon/collections/posts.yml'')])])])
              \<and> result \<noteq> root \<and> length h < length h1
          | _ \<Rightarrow> False)"
  by code_simp

theorem caller_configuration_not_mutated_witness:
  "take (length (snd (storeOf mutationConfig)))
      (snd (mergeConfigurationS mutationEnv 1 (fst (storeOf mutationConfig)) (snd (storeOf mutationConfig))))
     = snd (storeOf mutationConfig)
   \<and> stringify
        (snd (mergeConfigurationS mutationEnv 1 (fst (storeOf mutationConfig)) (snd (storeOf mutationConfig))))
        (fst (storeOf mutationConfig))
       = Some (JObj mutationConfig)
   \<and> (\<exists>result st h1.
         mergeConfigurationS mutationEnv 1 (fst (storeOf mutationConfig)) (snd (storeOf mutationConfig))
           = (Inr (result, st), h1)
         \<and> result \<noteq> fst (storeOf mutationConfig))"
proof -
  obtain root h where sh: "storeOf mutationConfig = (root, h)" by (cases "storeOf mutationConfig") auto
  note run = mutationExample_run[unfolded sh, simplified]
  note inst = caller_configuration_not_mutated[of h mutationEnv 1 root]
  have "\<exists>result st h1. mergeConfigurationS mutationEnv 1 root h = (Inr (result, st), h1)
      \<and> result \<noteq> root"
    using run by (auto split: prod.splits sum.splits)
  then show ?thesis using sh run inst by simp
qed

end
